theory Spec2Isabelle
  imports Main
begin

section \<open>Library collaborators: strings and the streaming XML reader\<close>

text \<open>
  \<open>DVRServer.cpp\<close> drives a \<open>QXmlStreamReader\<close> over the bytes of a reply. The
  reader is modelled by the stream of tokens it delivers for those bytes, together with
  its error state: \<open>readNext\<close> hands out the next token, and once an error has been
  raised (by the reader itself or through \<open>raiseError\<close>) every further \<open>readNext\<close>
  answers \<open>Invalid\<close>. A byte sequence that stops being well formed is a token list that
  ends at that point: reading past the end of the list is the reader's own error.
\<close>

datatype token =
    StartDocument
  | EndDocument
  | StartElement string "(string \<times> string) list"
  | EndElement string
  | Characters string
  | Comment
  | DTD
  | EntityReference string string
  | ProcessingInstruction

record reader =
  pending :: "token list"
  current :: "token option"
  errorString :: "string option"

text \<open>\<open>QXmlStreamReader xml(data)\<close>: nothing read yet, no error.\<close>

definition QXmlStreamReader :: "token list \<Rightarrow> reader" where
  "QXmlStreamReader data = \<lparr>pending = data, current = None, errorString = None\<rparr>"

text \<open>\<open>hasError()\<close>; the token type is \<open>Invalid\<close> exactly when it holds.\<close>

definition hasError :: "reader \<Rightarrow> bool" where
  "hasError r = (errorString r \<noteq> None)"

definition raiseError :: "string \<Rightarrow> reader \<Rightarrow> reader" where
  "raiseError msg r = r\<lparr>current := None, errorString := Some msg\<rparr>"

definition readNext :: "reader \<Rightarrow> reader" where
  "readNext r =
     (if hasError r then r
      else case pending r of
             [] \<Rightarrow> raiseError ''Premature end of document.'' r
           | t # ts \<Rightarrow> r\<lparr>pending := ts, current := Some t\<rparr>)"

definition isStartElement :: "reader \<Rightarrow> bool" where
  "isStartElement r = (case current r of Some (StartElement n a) \<Rightarrow> True | _ \<Rightarrow> False)"

definition isEndElement :: "reader \<Rightarrow> bool" where
  "isEndElement r = (case current r of Some (EndElement n) \<Rightarrow> True | _ \<Rightarrow> False)"

text \<open>\<open>xml.name()\<close>: the name of a start or end element (or entity reference), else empty.\<close>

definition name :: "reader \<Rightarrow> string" where
  "name r = (case current r of
                Some (StartElement n a) \<Rightarrow> n
              | Some (EndElement n) \<Rightarrow> n
              | Some (EntityReference n t) \<Rightarrow> n
              | _ \<Rightarrow> [])"

text \<open>
  \<open>xml.attributes().value(key).toString()\<close>: \<open>None\<close> is the null string of an absent
  attribute, \<open>Some []\<close> an attribute that is present and empty.
\<close>

definition attributeValue :: "reader \<Rightarrow> string \<Rightarrow> string option" where
  "attributeValue r key = (case current r of
                             Some (StartElement n a) \<Rightarrow> map_of a key
                           | _ \<Rightarrow> None)"

lemma pending_readNext_le: "length (pending (readNext r)) \<le> length (pending r)"
  by (simp add: readNext_def raiseError_def split: list.split)

lemma pending_readNext_less:
  "\<not> hasError (readNext r) \<Longrightarrow> length (pending (readNext r)) < length (pending r)"
  by (auto simp: readNext_def raiseError_def hasError_def split: list.splits if_splits)

text \<open>
  \<open>readNextStartElement()\<close>: reads until a start element (true), an end element or an
  error (false).
\<close>

function readNextStartElement :: "reader \<Rightarrow> bool \<times> reader" where
  "readNextStartElement r =
     (if hasError (readNext r) then (False, readNext r)
      else if isEndElement (readNext r) then (False, readNext r)
      else if isStartElement (readNext r) then (True, readNext r)
      else readNextStartElement (readNext r))"
  by pat_completeness auto
termination
  by (relation "measure (\<lambda>r. length (pending r))") (auto simp: pending_readNext_less)

declare readNextStartElement.simps [simp del]

text \<open>
  \<open>skipCurrentElement()\<close>: \<open>int depth = 1; while (depth && readNext() != Invalid)\<close>,
  counting end elements down and start elements up.
\<close>

function skipLoop :: "nat \<Rightarrow> reader \<Rightarrow> reader" where
  "skipLoop depth r =
     (if depth = 0 then r
      else if hasError (readNext r) then readNext r
      else if isEndElement (readNext r) then skipLoop (depth - 1) (readNext r)
      else if isStartElement (readNext r) then skipLoop (depth + 1) (readNext r)
      else skipLoop depth (readNext r))"
  by pat_completeness auto
termination
  by (relation "measure (\<lambda>(d, r). length (pending r))") (auto simp: pending_readNext_less)

declare skipLoop.simps [simp del]

definition skipCurrentElement :: "reader \<Rightarrow> reader" where
  "skipCurrentElement r = skipLoop 1 r"

text \<open>
  \<open>readElementText()\<close> with its default behaviour: character data and entity references
  are appended, comments and processing instructions are passed over, the end element
  returns the text; a child element or any other token raises
  \<open>Expected character data.\<close> (unless an error is already there) and returns what was
  collected. Called on anything but a start element it returns the empty string.
\<close>

function readTextLoop :: "string \<Rightarrow> reader \<Rightarrow> string \<times> reader" where
  "readTextLoop result r =
     (if hasError (readNext r) then (result, readNext r)
      else case current (readNext r) of
             Some (Characters t) \<Rightarrow> readTextLoop (result @ t) (readNext r)
           | Some (EntityReference n t) \<Rightarrow> readTextLoop (result @ t) (readNext r)
           | Some (EndElement n) \<Rightarrow> (result, readNext r)
           | Some ProcessingInstruction \<Rightarrow> readTextLoop result (readNext r)
           | Some Comment \<Rightarrow> readTextLoop result (readNext r)
           | _ \<Rightarrow> (result, raiseError ''Expected character data.'' (readNext r)))"
  by pat_completeness auto
termination
  by (relation "measure (\<lambda>(t, r). length (pending r))") (auto simp: pending_readNext_less)

declare readTextLoop.simps [simp del]

definition readElementText :: "reader \<Rightarrow> string \<times> reader" where
  "readElementText r = (if isStartElement r then readTextLoop [] r else ([], r))"


text \<open>
  \<open>QString::trimmed()\<close> and \<open>QString::toUInt(&ok)\<close>. What they take for white space is
  \<open>QChar::isSpace()\<close>, the parameter \<open>sp\<close>: nothing here fixes which characters those
  are. Strings are lists of the 8-bit characters of HOL. \<open>toUInt\<close> reads a decimal numeral, with white space around it and a plus sign
  allowed, and fails (\<open>ok = false\<close>) on anything else and on a value that does not fit
  32 bits.
\<close>

definition trimmed :: "(char \<Rightarrow> bool) \<Rightarrow> string \<Rightarrow> string" where
  "trimmed sp s = rev (dropWhile sp (rev (dropWhile sp s)))"

definition digitValue :: "char \<Rightarrow> nat option" where
  "digitValue c =
     (let n = (of_char c :: nat)
      in if of_char CHR ''0'' \<le> n \<and> n \<le> of_char CHR ''9'' then Some (n - of_char CHR ''0'')
         else None)"

fun decimal :: "nat \<Rightarrow> string \<Rightarrow> nat option" where
  "decimal acc [] = Some acc"
| "decimal acc (c # cs) =
     (case digitValue c of None \<Rightarrow> None | Some d \<Rightarrow> decimal (10 * acc + d) cs)"

definition toUInt :: "(char \<Rightarrow> bool) \<Rightarrow> string \<Rightarrow> nat option" where
  "toUInt sp s =
     (let t = trimmed sp s;
          u = (case t of c # cs \<Rightarrow> if c = CHR ''+'' then cs else t | [] \<Rightarrow> t)
      in if u = [] then None
         else case decimal 0 u of
                None \<Rightarrow> None
              | Some n \<Rightarrow> if n < 2 ^ 32 then Some n else None)"

text \<open>The cast \<open>(int)\<close> of a 32-bit unsigned value: the same bits read as two's complement.\<close>

definition int_cast :: "nat \<Rightarrow> int" where
  "int_cast n = (if n < 2 ^ 31 then int n else int n - 2 ^ 32)"

section \<open>The server object\<close>

text \<open>
  A \<open>DVRCamera\<close> is a handle on camera data kept per server and device id
  (\<open>DVRCamera::getCamera(this, deviceId)\<close>); two handles are equal when they stand for
  the same device id. The handle is modelled by the id, the data behind the handles by
  the store \<open>cameraData\<close>, which holds the online flag of every camera created so far.

  Signals are recorded in the order of their \<open>emit\<close> in \<open>emitted\<close>. \<open>cameraRemoved(c)\<close>
  hands the camera to its receivers, who see the camera as it is at that moment: the
  event carries the online flag the camera has when the signal is emitted.
\<close>

type_synonym camera = int

text \<open>
  What the handlers take from outside this file, as parameters: \<open>QChar::isSpace()\<close>,
  which decides what \<open>trimmed()\<close> and \<open>toUInt()\<close> strip, and the verdict of
  \<open>DVRCamera::parseXML\<close> on the fields of a device entry (see below).
\<close>

record collaborators =
  isSpace :: "char \<Rightarrow> bool"
  fieldsOk :: "camera \<Rightarrow> token list \<Rightarrow> bool"

datatype event =
    Changed
  | CameraAdded camera
  | CameraRemoved camera bool
  | DevicesReady
  | StatusAlertMessageChanged string
  | RequestSent string

record DVRServer =
  configId :: int
  settingsStore :: "int \<times> string \<rightharpoonup> string"
  apiOnline :: bool
  refreshTimerActive :: bool
  m_cameras :: "camera list"
  cameraData :: "camera \<rightharpoonup> bool"
  devicesLoaded :: bool
  m_statusAlertMessage :: string
  emitted :: "event list"

definition emit :: "event \<Rightarrow> DVRServer \<Rightarrow> DVRServer" where
  "emit e s = s\<lparr>emitted := emitted s @ [e]\<rparr>"

text \<open>
  A finished \<open>QNetworkReply\<close>: \<open>replyError\<close> is \<open>None\<close> for \<open>QNetworkReply::NoError\<close> and
  the error string otherwise; \<open>replyData\<close> is what the XML reader delivers for
  \<open>readAll()\<close>. The handlers receive \<open>None\<close> when \<open>sender()\<close> is not a reply.
\<close>

record reply =
  replyError :: "string option"
  replyData :: "token list"

subsection \<open>Settings\<close>

text \<open>
  \<open>QSettings\<close> under the key \<open>servers/<configId>/<key>\<close>: the store is keyed by the pair.
  \<open>readSetting\<close> is used with the default \<open>QVariant()\<close>, whose byte array is empty.
\<close>

definition readSetting :: "DVRServer \<Rightarrow> string \<Rightarrow> string" where
  "readSetting s key = (case settingsStore s (configId s, key) of None \<Rightarrow> [] | Some v \<Rightarrow> v)"

definition writeSetting :: "string \<Rightarrow> string \<Rightarrow> DVRServer \<Rightarrow> DVRServer" where
  "writeSetting key v s =
     emit Changed (s\<lparr>settingsStore := (settingsStore s)((configId s, key) \<mapsto> v)\<rparr>)"

subsection \<open>Certificate pinning\<close>

text \<open>
  \<open>certificate.digest(QCryptographicHash::Sha1)\<close> is the parameter \<open>digest\<close>.
  \<open>isKnownCertificate\<close> is declared const and writes through a \<open>const_cast\<close>: it returns
  its answer and the server.
\<close>

definition setKnownCertificate :: "('c \<Rightarrow> string) \<Rightarrow> 'c \<Rightarrow> DVRServer \<Rightarrow> DVRServer" where
  "setKnownCertificate digest certificate s = writeSetting ''sslDigest'' (digest certificate) s"

definition isKnownCertificate :: "('c \<Rightarrow> string) \<Rightarrow> 'c \<Rightarrow> DVRServer \<Rightarrow> bool \<times> DVRServer" where
  "isKnownCertificate digest certificate s =
     (let knownDigest = readSetting s ''sslDigest''
      in if knownDigest = [] then (True, setKnownCertificate digest certificate s)
         else (digest certificate = knownDigest, s))"

subsection \<open>Cameras\<close>

text \<open>
  \<open>DVRCamera\<close> is declared in \<open>core/DVRCamera.h\<close>; the bodies of its functions are not
  among the sources. The spec has: "look up or create the corresponding Camera
  (create-on-first-sight, keyed by unique id, scoped to the endpoint); mark it online;
  parse its remaining fields from the entry. If field-parsing of an otherwise well-formed
  entry fails, skip that entry", and "equality is defined by unique id".
\<close>

text \<open>
  Modelled from the spec: the body of \<open>DVRCamera::getCamera\<close> is missing. It creates the
  data of an id on first sight (offline) and returns the handle.
\<close>

definition getCamera :: "int \<Rightarrow> DVRServer \<Rightarrow> camera \<times> DVRServer" where
  "getCamera deviceId s =
     (deviceId, case cameraData s deviceId of
                  None \<Rightarrow> s\<lparr>cameraData := (cameraData s)(deviceId \<mapsto> False)\<rparr>
                | Some b \<Rightarrow> s)"

text \<open>
  Modelled from the spec: the body of \<open>DVRCamera::uniqueId\<close> is missing. The handle is
  the unique id.
\<close>

definition uniqueId :: "camera \<Rightarrow> int" where
  "uniqueId c = c"

text \<open>
  Modelled from the spec: the bodies of \<open>DVRCamera::setOnline\<close> and \<open>isOnline\<close> are
  missing. They write and read the online flag of the camera's data.
\<close>

definition setOnline :: "camera \<Rightarrow> bool \<Rightarrow> DVRServer \<Rightarrow> DVRServer" where
  "setOnline c b s = s\<lparr>cameraData := (cameraData s)(c \<mapsto> b)\<rparr>"

definition isOnline :: "DVRServer \<Rightarrow> camera \<Rightarrow> bool" where
  "isOnline s c = (cameraData s c = Some True)"

text \<open>
  Modelled from the spec: the body of \<open>DVRCamera::removed\<close> is missing, and the spec
  gives it no effect on the server: it tells the camera's own observers.
\<close>

definition removed :: "camera \<Rightarrow> DVRServer \<Rightarrow> DVRServer" where
  "removed c s = s"

text \<open>
  Modelled from the spec: the body of \<open>DVRCamera::parseXML\<close> is missing. It reads the
  entry to the end element that closes it (\<open>entryLoop\<close>, counting nested elements) and
  answers whether the fields parsed. What makes fields acceptable is the parameter
  \<open>verdict\<close> (\<open>fieldsOk\<close> of the collaborators), asked with the camera and the tokens
  of the entry; an entry cut short by a reader error fails.
\<close>

function entryLoop :: "nat \<Rightarrow> token list \<Rightarrow> reader \<Rightarrow> token list \<times> reader" where
  "entryLoop depth seen r =
     (if hasError (readNext r) then (seen, readNext r)
      else case current (readNext r) of
             Some (EndElement n) \<Rightarrow>
               if depth = 0 then (seen, readNext r)
               else entryLoop (depth - 1) (seen @ [EndElement n]) (readNext r)
           | Some (StartElement n a) \<Rightarrow>
               entryLoop (depth + 1) (seen @ [StartElement n a]) (readNext r)
           | Some t \<Rightarrow> entryLoop depth (seen @ [t]) (readNext r)
           | None \<Rightarrow> (seen, readNext r))"
  by pat_completeness auto
termination
  by (relation "measure (\<lambda>(d, ts, r). length (pending r))") (auto simp: pending_readNext_less)

declare entryLoop.simps [simp del]

definition parseXML ::
  "(camera \<Rightarrow> token list \<Rightarrow> bool) \<Rightarrow> camera \<Rightarrow> reader \<Rightarrow> bool \<times> reader" where
  "parseXML verdict c r =
     (case entryLoop 0 [] r of
        (seen, r') \<Rightarrow> (\<not> hasError r' \<and> verdict c seen, r'))"

subsection \<open>Progress of the reader\<close>

text \<open>
  What a reader can still deliver: nothing once it is in error, else the tokens left.
  Every loop over the reader below goes down on it.
\<close>

definition remaining :: "reader \<Rightarrow> nat" where
  "remaining r = (if hasError r then 0 else Suc (length (pending r)))"

lemma remaining_raiseError [simp]: "remaining (raiseError msg r) = 0"
  by (simp add: remaining_def raiseError_def hasError_def)

lemma remaining_readNext_le: "remaining (readNext r) \<le> remaining r"
  by (auto simp: remaining_def readNext_def raiseError_def hasError_def split: list.splits)

lemma remaining_readNext_less: "\<not> hasError (readNext r) \<Longrightarrow> remaining (readNext r) < remaining r"
  by (auto simp: remaining_def readNext_def raiseError_def hasError_def split: list.splits if_splits)

lemma remaining_hasError [simp]: "hasError r \<Longrightarrow> remaining r = 0"
  by (simp add: remaining_def)

lemma remaining_readTextLoop: "remaining (snd (readTextLoop t r)) \<le> remaining r"
proof (induction t r rule: readTextLoop.induct)
  case (1 result r)
  show ?case
  proof (cases "hasError (readNext r)")
    case True
    then show ?thesis by (subst readTextLoop.simps) simp
  next
    case False
    note less = remaining_readNext_less [OF False]
    show ?thesis
      using False less "1.IH"
      by (subst readTextLoop.simps) (auto split: option.splits token.splits intro: le_trans less_imp_le)
  qed
qed

lemma remaining_readElementText: "remaining (snd (readElementText r)) \<le> remaining r"
  by (simp add: readElementText_def remaining_readTextLoop)

lemma remaining_entryLoop: "remaining (snd (entryLoop d seen r)) \<le> remaining r"
proof (induction d seen r rule: entryLoop.induct)
  case (1 depth seen r)
  show ?case
  proof (cases "hasError (readNext r)")
    case True
    then show ?thesis by (subst entryLoop.simps) simp
  next
    case False
    note less = remaining_readNext_less [OF False]
    show ?thesis
      using False less "1.IH"
      by (subst entryLoop.simps) (auto split: option.splits token.splits intro: le_trans less_imp_le)
  qed
qed

lemma remaining_parseXML: "remaining (snd (parseXML verdict c r)) \<le> remaining r"
  using remaining_entryLoop [of 0 "[]" r] by (auto simp: parseXML_def split: prod.splits)

lemma remaining_skipLoop: "remaining (skipLoop d r) \<le> remaining r"
proof (induction d r rule: skipLoop.induct)
  case (1 depth r)
  show ?case
  proof (cases "depth = 0 \<or> hasError (readNext r)")
    case True
    then show ?thesis by (subst skipLoop.simps) auto
  next
    case False
    then have less: "remaining (readNext r) < remaining r"
      by (simp add: remaining_readNext_less)
    show ?thesis
      using False less "1.IH"
      by (subst skipLoop.simps) (auto intro: le_trans less_imp_le)
  qed
qed

lemma remaining_readNextStartElement: "remaining (snd (readNextStartElement r)) \<le> remaining r"
proof (induction r rule: readNextStartElement.induct)
  case (1 r)
  show ?case
  proof (cases "hasError (readNext r)")
    case True
    then show ?thesis by (subst readNextStartElement.simps) simp
  next
    case False
    note less = remaining_readNext_less [OF False]
    show ?thesis
      using False less "1.IH"
      by (subst readNextStartElement.simps) (auto intro: le_trans less_imp_le)
  qed
qed

lemma remaining_readNextStartElement_True:
  "readNextStartElement r = (True, r') \<Longrightarrow> remaining r' < remaining r"
proof (induction r rule: readNextStartElement.induct)
  case (1 r)
  show ?case
  proof (cases "hasError (readNext r)")
    case True
    then show ?thesis using "1.prems" by (subst (asm) readNextStartElement.simps) simp
  next
    case False
    note less = remaining_readNext_less [OF False]
    show ?thesis
      using False less "1.IH" "1.prems"
      by (subst (asm) readNextStartElement.simps) (auto split: if_splits intro: less_trans)
  qed
qed

subsection \<open>The device list\<close>

text \<open>
  The body of \<open>if (xml.name() == QLatin1String("device"))\<close> in \<open>updateCamerasReply()\<close>,
  for the reader on the start element of the entry. Each \<open>continue\<close> is a return to the
  loop. The id is inserted and the camera set online before \<open>parseXML\<close> is tried.
\<close>

definition deviceEntry ::
  "collaborators \<Rightarrow> reader \<Rightarrow> int set \<Rightarrow> DVRServer
     \<Rightarrow> reader \<times> int set \<times> DVRServer" where
  "deviceEntry q xml idSet s =
     (case attributeValue xml ''id'' of
        None \<Rightarrow> (xml, idSet, s)
      | Some idv \<Rightarrow>
          (case toUInt (isSpace q) idv of
             None \<Rightarrow> (raiseError ''Invalid device ID'' xml, idSet, s)
           | Some n \<Rightarrow>
               let deviceId = int_cast n;
                   idSet1 = insert deviceId idSet;
                   camera = fst (getCamera deviceId s);
                   s1 = setOnline camera True (snd (getCamera deviceId s));
                   ok = fst (parseXML (fieldsOk q) camera xml);
                   xml1 = snd (parseXML (fieldsOk q) camera xml)
               in if \<not> ok then
                    (if \<not> hasError xml1 then raiseError ''Device parsing failed'' xml1 else xml1,
                     idSet1, s1)
                  else if camera \<notin> set (m_cameras s1) then
                    (xml1, idSet1, emit (CameraAdded camera) (s1\<lparr>m_cameras := m_cameras s1 @ [camera]\<rparr>))
                  else (xml1, idSet1, s1)))"

lemma remaining_deviceEntry:
  "remaining (fst (deviceEntry q xml idSet s)) \<le> remaining xml"
  by (auto simp: deviceEntry_def Let_def remaining_parseXML split: option.splits)

text \<open>
  \<open>while (xml.readNext() != QXmlStreamReader::Invalid)\<close> inside the \<open>devices\<close> element:
  it ends at the end element \<open>devices\<close> or when the reader is in error.
\<close>

function devicesLoop ::
  "collaborators \<Rightarrow> reader \<Rightarrow> int set \<Rightarrow> DVRServer
     \<Rightarrow> reader \<times> int set \<times> DVRServer" where
  "devicesLoop q xml idSet s =
     (if hasError (readNext xml) then (readNext xml, idSet, s)
      else if isEndElement (readNext xml) \<and> name (readNext xml) = ''devices'' then
        (readNext xml, idSet, s)
      else if \<not> isStartElement (readNext xml) then devicesLoop q (readNext xml) idSet s
      else if name (readNext xml) = ''device'' then
        (case deviceEntry q (readNext xml) idSet s of
           (xml1, idSet1, s1) \<Rightarrow> devicesLoop q xml1 idSet1 s1)
      else devicesLoop q (readNext xml) idSet s)"
  by pat_completeness auto
termination
proof (relation "measure (\<lambda>(f, xml, ids, s). remaining xml)", goal_cases)
  case 1
  show ?case by simp
next
  case (2 q xml idSet s)
  then show ?case by (simp add: remaining_readNext_less)
next
  case (3 q xml idSet s xml1 rest idSet1 s1)
  from 3 have "fst (deviceEntry q (readNext xml) idSet s) = xml1"
    by (metis fst_conv)
  then have "remaining xml1 \<le> remaining (readNext xml)"
    using remaining_deviceEntry [of q "readNext xml" idSet s] by simp
  moreover from 3 have "remaining (readNext xml) < remaining xml"
    by (simp add: remaining_readNext_less)
  ultimately show ?case by simp
next
  case (4 q xml idSet s)
  then show ?case by (simp add: remaining_readNext_less)
qed

declare devicesLoop.simps [simp del]

text \<open>
  \<open>while (xml.readNextStartElement())\<close>: the first element named \<open>devices\<close> is read by
  the loop above and ends the search (\<open>break\<close>); any other element is skipped. The
  result has the reader, \<open>idSet\<close>, \<open>hasDevicesElement\<close> and the server.
\<close>

function findDevices ::
  "collaborators \<Rightarrow> reader \<Rightarrow> DVRServer
     \<Rightarrow> reader \<times> int set \<times> bool \<times> DVRServer" where
  "findDevices q xml s =
     (case readNextStartElement xml of
        (False, xml1) \<Rightarrow> (xml1, {}, False, s)
      | (True, xml1) \<Rightarrow>
          if name xml1 = ''devices'' then
            (case devicesLoop q xml1 {} s of
               (xml2, idSet, s2) \<Rightarrow> (xml2, idSet, True, s2))
          else findDevices q (skipCurrentElement xml1) s)"
  by pat_completeness auto
termination
proof (relation "measure (\<lambda>(f, xml, s). remaining xml)", goal_cases)
  case 1
  show ?case by simp
next
  case (2 q xml s x xml1)
  then have "remaining xml1 < remaining xml"
    by (simp add: remaining_readNextStartElement_True)
  moreover have "remaining (skipCurrentElement xml1) \<le> remaining xml1"
    by (simp add: skipCurrentElement_def remaining_skipLoop)
  ultimately show ?case by simp
qed

declare findDevices.simps [simp del]

text \<open>
  \<open>for (int i = 0; i < m_cameras.size(); ++i)\<close>: a camera whose id is not in \<open>idSet\<close>
  is taken out at \<open>i\<close>, \<open>cameraRemoved\<close> is emitted, \<open>removed()\<close> is called, and
  \<open>--i\<close> with the loop's \<open>++i\<close> leaves \<open>i\<close> where it is.
\<close>

definition removeAt :: "nat \<Rightarrow> 'a list \<Rightarrow> 'a list" where
  "removeAt i xs = take i xs @ drop (Suc i) xs"

function removeAbsent :: "int set \<Rightarrow> nat \<Rightarrow> DVRServer \<Rightarrow> DVRServer" where
  "removeAbsent idSet i s =
     (if i < length (m_cameras s) then
        (if uniqueId (m_cameras s ! i) \<notin> idSet then
           let c = m_cameras s ! i;
               s1 = s\<lparr>m_cameras := removeAt i (m_cameras s)\<rparr>;
               s2 = emit (CameraRemoved c (isOnline s1 c)) s1
           in removeAbsent idSet i (removed c s2)
         else removeAbsent idSet (i + 1) s)
      else s)"
  by pat_completeness auto
termination
  by (relation "measure (\<lambda>(ids, i, s). length (m_cameras s) - i)")
     (auto simp: removed_def emit_def removeAt_def)

declare removeAbsent.simps [simp del]

text \<open>\<open>updateCamerasReply()\<close>, the slot of the finished device-list request.\<close>

definition updateCamerasReply ::
  "collaborators \<Rightarrow> reply option \<Rightarrow> DVRServer \<Rightarrow> DVRServer" where
  "updateCamerasReply q sender s =
     (case sender of
        None \<Rightarrow> s
      | Some reply \<Rightarrow>
          if replyError reply \<noteq> None then s
          else
            (let wasEmpty = (m_cameras s = [])
             in case findDevices q (QXmlStreamReader (replyData reply)) s of
                  (xml, idSet, hasDevicesElement, s1) \<Rightarrow>
                    let xml1 = (if \<not> hasDevicesElement
                                then raiseError ''Invalid format: no devices element'' xml
                                else xml)
                    in if hasError xml1 then s1
                       else
                         let s2 = removeAbsent idSet 0 s1
                         in if \<not> devicesLoaded s2 \<or> (wasEmpty \<and> m_cameras s2 \<noteq> []) then
                              emit DevicesReady (s2\<lparr>devicesLoaded := True\<rparr>)
                            else s2))"

text \<open>
  The handler reaches the reconciliation (the loop over \<open>m_cameras\<close>) when the sender is
  a reply without transport error, a \<open>devices\<close> element was found and the reader is not
  in error. \<open>observedIds\<close> is \<open>idSet\<close> as the parse leaves it.
\<close>

definition reconciles ::
  "collaborators \<Rightarrow> reply option \<Rightarrow> DVRServer \<Rightarrow> bool" where
  "reconciles q sender s =
     (case sender of
        None \<Rightarrow> False
      | Some reply \<Rightarrow>
          replyError reply = None \<and>
          (case findDevices q (QXmlStreamReader (replyData reply)) s of
             (xml, idSet, hasDevicesElement, s1) \<Rightarrow> hasDevicesElement \<and> \<not> hasError xml))"

definition observedIds ::
  "collaborators \<Rightarrow> reply \<Rightarrow> DVRServer \<Rightarrow> int set" where
  "observedIds q reply s =
     fst (snd (findDevices q (QXmlStreamReader (replyData reply)) s))"

text \<open>The signals emitted on the way from \<open>s\<close> to \<open>s'\<close>.\<close>

definition emittedBy :: "DVRServer \<Rightarrow> DVRServer \<Rightarrow> event list" where
  "emittedBy s s' = drop (length (emitted s)) (emitted s')"

subsection \<open>The status message\<close>

text \<open>
  \<open>updateStatsReply()\<close>. Inside a \<open>stats\<close> element every start element is looked at,
  in document order: \<open>message\<close> sets \<open>hadMessageElement\<close> and, when its text is not
  empty, the message; \<open>bc-server-running\<close> with the trimmed text \<open>down\<close> sets the message
  to \<open>Server process stopped\<close>. \<open>tr()\<close> is taken without a translation.
\<close>

function statsLoop :: "collaborators \<Rightarrow> reader \<Rightarrow> string \<Rightarrow> bool \<Rightarrow> reader \<times> string \<times> bool" where
  "statsLoop q xml message hadMessageElement =
     (if hasError (readNext xml) then (readNext xml, message, hadMessageElement)
      else if isEndElement (readNext xml) \<and> name (readNext xml) = ''stats'' then
        (readNext xml, message, hadMessageElement)
      else if \<not> isStartElement (readNext xml) then
        statsLoop q (readNext xml) message hadMessageElement
      else if name (readNext xml) = ''message'' then
        (let text = fst (readElementText (readNext xml))
         in statsLoop q (snd (readElementText (readNext xml)))
              (if text \<noteq> [] then text else message) True)
      else if name (readNext xml) = ''bc-server-running'' then
        statsLoop q (snd (readElementText (readNext xml)))
          (if trimmed (isSpace q) (fst (readElementText (readNext xml))) = ''down''
           then ''Server process stopped'' else message)
          hadMessageElement
      else statsLoop q (readNext xml) message hadMessageElement)"
  by pat_completeness auto
termination
proof (relation "measure (\<lambda>(q, xml, m, h). remaining xml)", goal_cases)
  case 1
  show ?case by simp
next
  case (2 q xml message hadMessageElement)
  then show ?case by (simp add: remaining_readNext_less)
next
  case (3 q xml message hadMessageElement elementText)
  then have "remaining (readNext xml) < remaining xml"
    by (simp add: remaining_readNext_less)
  then show ?case
    using remaining_readElementText [of "readNext xml"] by simp
next
  case (4 q xml message hadMessageElement)
  then have "remaining (readNext xml) < remaining xml"
    by (simp add: remaining_readNext_less)
  then show ?case
    using remaining_readElementText [of "readNext xml"] by simp
next
  case (5 q xml message hadMessageElement)
  then show ?case by (simp add: remaining_readNext_less)
qed

declare statsLoop.simps [simp del]

lemma remaining_statsLoop: "remaining (fst (statsLoop q xml m h)) \<le> remaining xml"
proof (induction q xml m h rule: statsLoop.induct)
  case (1 q xml message hadMessageElement)
  show ?case
  proof (cases "hasError (readNext xml)")
    case True
    then show ?thesis by (subst statsLoop.simps) simp
  next
    case False
    note less = remaining_readNext_less [OF False]
    note elem = remaining_readElementText [of "readNext xml"]
    show ?thesis
      using False less elem "1.IH"
      by (subst statsLoop.simps) (auto simp: Let_def intro: le_trans less_imp_le)
  qed
qed

text \<open>
  \<open>while (xml.readNextStartElement())\<close>: an element named \<open>stats\<close> is read by the loop
  above; any other start element is stepped into.
\<close>

function readStats :: "collaborators \<Rightarrow> reader \<Rightarrow> string \<Rightarrow> bool \<Rightarrow> reader \<times> string \<times> bool" where
  "readStats q xml message hadMessageElement =
     (case readNextStartElement xml of
        (False, xml1) \<Rightarrow> (xml1, message, hadMessageElement)
      | (True, xml1) \<Rightarrow>
          if name xml1 = ''stats'' then
            (case statsLoop q xml1 message hadMessageElement of
               (xml2, message2, had2) \<Rightarrow> readStats q xml2 message2 had2)
          else readStats q xml1 message hadMessageElement)"
  by pat_completeness auto
termination
proof (relation "measure (\<lambda>(q, xml, m, h). remaining xml)", goal_cases)
  case 1
  show ?case by simp
next
  case (2 q xml message hadMessageElement x xml1 xml2 rest message2 had2)
  from 2 have "remaining xml1 < remaining xml"
    by (simp add: remaining_readNextStartElement_True)
  moreover from 2 have "fst (statsLoop q xml1 message hadMessageElement) = xml2"
    by (metis fst_conv)
  then have "remaining xml2 \<le> remaining xml1"
    using remaining_statsLoop [of q xml1 message hadMessageElement] by simp
  ultimately show ?case by simp
next
  case (3 q xml message hadMessageElement x xml1)
  then show ?case by (simp add: remaining_readNextStartElement_True)
qed

declare readStats.simps [simp del]

text \<open>The local \<open>message\<close> when the comparison with the stored alert is reached.\<close>

definition statusMessage :: "collaborators \<Rightarrow> reply \<Rightarrow> string" where
  "statusMessage q reply =
     (case replyError reply of
        Some errorText \<Rightarrow> ''Status request error: '' @ errorText
      | None \<Rightarrow>
          (case readStats q (QXmlStreamReader (replyData reply)) [] False of
             (xml, message, hadMessageElement) \<Rightarrow>
               if \<not> hadMessageElement then ''Status request error: invalid server response''
               else message))"

definition updateStatsReply :: "collaborators \<Rightarrow> reply option \<Rightarrow> DVRServer \<Rightarrow> DVRServer" where
  "updateStatsReply q sender s =
     (case sender of
        None \<Rightarrow> s
      | Some reply \<Rightarrow>
          let message = statusMessage q reply
          in if message \<noteq> m_statusAlertMessage s then
               emit (StatusAlertMessageChanged message) (s\<lparr>m_statusAlertMessage := message\<rparr>)
             else s)"

subsection \<open>Polling and disconnect\<close>

text \<open>
  \<open>updateCameras()\<close>, the slot of the login signal and of the refresh timer.
  \<open>apiOnline\<close> is \<open>api->isOnline()\<close>; the two requests are recorded as events.
\<close>

definition updateCameras :: "DVRServer \<Rightarrow> DVRServer" where
  "updateCameras s =
     (if \<not> apiOnline s then s\<lparr>refreshTimerActive := False\<rparr>
      else
        let s1 = (if \<not> refreshTimerActive s then s\<lparr>refreshTimerActive := True\<rparr> else s);
            s2 = emit (RequestSent ''/ajax/devices.php?XML=1'') s1
        in emit (RequestSent ''/ajax/stats.php'') s2)"

text \<open>
  \<open>disconnected()\<close>: \<open>while (!m_cameras.isEmpty())\<close> takes the first camera, sets it
  offline, emits \<open>cameraRemoved\<close> and calls \<open>removed()\<close>; then the flag and the alert
  are reset and \<open>statusAlertMessageChanged(QString())\<close> is emitted.
\<close>

function takeCameras :: "DVRServer \<Rightarrow> DVRServer" where
  "takeCameras s =
     (case m_cameras s of
        [] \<Rightarrow> s
      | c # cs \<Rightarrow>
          let s1 = s\<lparr>m_cameras := cs\<rparr>;
              s2 = setOnline c False s1;
              s3 = emit (CameraRemoved c (isOnline s2 c)) s2
          in takeCameras (removed c s3))"
  by pat_completeness auto
termination
  by (relation "measure (\<lambda>s. length (m_cameras s))")
     (auto simp: removed_def emit_def setOnline_def)

declare takeCameras.simps [simp del]

definition disconnected :: "DVRServer \<Rightarrow> DVRServer" where
  "disconnected s =
     (let s1 = takeCameras s;
          s2 = s1\<lparr>devicesLoaded := False\<rparr>;
          s3 = s2\<lparr>m_statusAlertMessage := []\<rparr>
      in emit (StatusAlertMessageChanged []) s3)"


text \<open>
  The constructor, for a server with nothing in the settings store: no camera, the
  devices not loaded, the timer not started, the transport offline.
\<close>

definition newServer :: "int \<Rightarrow> DVRServer" where
  "newServer i =
     \<lparr>configId = i, settingsStore = Map.empty, apiOnline = False,
      refreshTimerActive = False, m_cameras = [], cameraData = Map.empty,
      devicesLoaded = False, m_statusAlertMessage = [], emitted = []\<rparr>"


section \<open>Documents and notions for the statements\<close>

text \<open>
  Replies as the server sends them: a \<open>devices\<close> document of \<open>device\<close> entries, each
  with its attributes and its fields (name and text), and a \<open>stats\<close> document of
  elements with text.
\<close>

type_synonym entry = "(string \<times> string) list \<times> (string \<times> string) list"

definition fieldTokens :: "string \<times> string \<Rightarrow> token list" where
  "fieldTokens nv = [StartElement (fst nv) [], Characters (snd nv), EndElement (fst nv)]"

definition entryTokens :: "entry \<Rightarrow> token list" where
  "entryTokens e =
     StartElement ''device'' (fst e) # concat (map fieldTokens (snd e)) @ [EndElement ''device'']"

definition devicesDocument :: "entry list \<Rightarrow> token list" where
  "devicesDocument es =
     [StartDocument, StartElement ''devices'' []] @ concat (map entryTokens es)
       @ [EndElement ''devices'', EndDocument]"

definition deviceListReply :: "entry list \<Rightarrow> reply" where
  "deviceListReply es = \<lparr>replyError = None, replyData = devicesDocument es\<rparr>"

definition statsDocument :: "(string \<times> string) list \<Rightarrow> token list" where
  "statsDocument cs =
     [StartDocument, StartElement ''stats'' []] @ concat (map fieldTokens cs)
       @ [EndElement ''stats'', EndDocument]"

definition statsReply :: "(string \<times> string) list \<Rightarrow> reply" where
  "statsReply cs = \<lparr>replyError = None, replyData = statsDocument cs\<rparr>"

text \<open>A device entry with the given id and a name.\<close>

definition device :: "string \<Rightarrow> entry" where
  "device i = ([(''id'', i)], [(''device_name'', ''Camera'')])"

text \<open>
  Collaborators for the examples: the ASCII white space, and fields that always parse.
  The texts of the examples hold letters, digits and blanks only.
\<close>

definition asciiSpace :: "char \<Rightarrow> bool" where
  "asciiSpace c = (c \<in> {CHR '' '', CHR 0x09, CHR 0x0A, CHR 0x0B, CHR 0x0C, CHR 0x0D})"

definition anyFields :: collaborators where
  "anyFields = \<lparr>isSpace = asciiSpace, fieldsOk = (\<lambda>c ts. True)\<rparr>"

text \<open>
  The id a \<open>device\<close> entry carries, whether the handler gets through the entry, and
  whether the handler raises an error on it (an id that \<open>toUInt\<close> rejects, or fields
  that do not parse). An entry without id attribute is neither.
\<close>

definition entryId :: "collaborators \<Rightarrow> entry \<Rightarrow> int option" where
  "entryId f e = (case map_of (fst e) ''id'' of
                    None \<Rightarrow> None
                  | Some idv \<Rightarrow> map_option int_cast (toUInt (isSpace f) idv))"

definition entryParses :: "collaborators \<Rightarrow> entry \<Rightarrow> bool" where
  "entryParses f e = (case entryId f e of
                        None \<Rightarrow> False
                      | Some d \<Rightarrow> fieldsOk f d (concat (map fieldTokens (snd e))))"


text \<open>The reader that has just read the start element of entry \<open>e\<close>.\<close>

definition atEntry :: "entry \<Rightarrow> token list \<Rightarrow> reader" where
  "atEntry e rest =
     \<lparr>pending = concat (map fieldTokens (snd e)) @ EndElement ''device'' # rest,
      current = Some (StartElement ''device'' (fst e)), errorString = None\<rparr>"

text \<open>What the handler does to the server at entry \<open>e\<close>.\<close>

definition observe :: "collaborators \<Rightarrow> entry \<Rightarrow> DVRServer \<Rightarrow> DVRServer" where
  "observe f e s = snd (snd (deviceEntry f (atEntry e []) {} s))"


text \<open>The \<open>cameraRemoved\<close> signals among the emitted ones.\<close>

fun isRemoval :: "event \<Rightarrow> bool" where
  "isRemoval (CameraRemoved c b) = True"
| "isRemoval e = False"

text \<open>
  The tests at the head of the loop over the \<open>devices\<close> element, and the last step of the
  handler (the flag and \<open>devicesReady\<close>).
\<close>

definition loopEnds :: "reader \<Rightarrow> bool" where
  "loopEnds xml = (hasError xml \<or> (isEndElement xml \<and> name xml = ''devices''))"

definition atDevice :: "reader \<Rightarrow> bool" where
  "atDevice xml = (isStartElement xml \<and> name xml = ''device'')"

definition finish :: "bool \<Rightarrow> DVRServer \<Rightarrow> DVRServer" where
  "finish wasEmpty s2 =
     (if \<not> devicesLoaded s2 \<or> (wasEmpty \<and> m_cameras s2 \<noteq> []) then
        emit DevicesReady (s2\<lparr>devicesLoaded := True\<rparr>)
      else s2)"

text \<open>
  \<open>s'\<close> is \<open>s\<close> with cameras appended to the list, \<open>cameraAdded\<close> emitted for them, and
  the data of cameras changed.
\<close>

definition grown :: "DVRServer \<Rightarrow> DVRServer \<Rightarrow> bool" where
  "grown s s' =
     (s' = s\<lparr>m_cameras := m_cameras s @ drop (length (m_cameras s)) (m_cameras s'),
            emitted := emitted s @ map CameraAdded (drop (length (m_cameras s)) (m_cameras s')),
            cameraData := cameraData s'\<rparr>)"

text \<open>
  Servers of the examples: one with two cameras and an alert; one whose first reply
  listed the cameras 1 and 2.
\<close>

definition busyServer :: DVRServer where
  "busyServer =
     (newServer 1)\<lparr>apiOnline := True, refreshTimerActive := True, m_cameras := [1, 2],
       cameraData := [1 \<mapsto> True, 2 \<mapsto> True], devicesLoaded := True,
       m_statusAlertMessage := ''Server process stopped''\<rparr>"

definition afterFirstReply :: DVRServer where
  "afterFirstReply =
     updateCamerasReply anyFields (Some (deviceListReply [device ''1'', device ''2'']))
       (newServer 1)"

text \<open>A server that went online, polled once, and whose transport then dropped.\<close>

definition droppedServer :: DVRServer where
  "droppedServer = (updateCameras ((newServer 1)\<lparr>apiOnline := True\<rparr>))\<lparr>apiOnline := False\<rparr>"

section \<open>Disconnect\<close>

lemma takeCameras_eq:
  "takeCameras s =
     s\<lparr>m_cameras := [],
       cameraData := (\<lambda>c. if c \<in> set (m_cameras s) then Some False else cameraData s c),
       emitted := emitted s @ map (\<lambda>c. CameraRemoved c False) (m_cameras s)\<rparr>"
proof (induction s rule: takeCameras.induct)
  case (1 s)
  show ?case
  proof (cases "m_cameras s")
    case Nil
    then show ?thesis by (subst takeCameras.simps) simp
  next
    case (Cons c cs)
    let ?s3 = "removed c (emit (CameraRemoved c (isOnline (setOnline c False (s\<lparr>m_cameras := cs\<rparr>)) c))
                 (setOnline c False (s\<lparr>m_cameras := cs\<rparr>)))"
    have step: "takeCameras s = takeCameras ?s3"
      using Cons by (subst takeCameras.simps) (simp add: Let_def)
    have ih: "takeCameras ?s3 = ?s3\<lparr>m_cameras := [],
       cameraData := (\<lambda>c. if c \<in> set (m_cameras ?s3) then Some False else cameraData ?s3 c),
       emitted := emitted ?s3 @ map (\<lambda>c. CameraRemoved c False) (m_cameras ?s3)\<rparr>"
      using "1.IH" [OF Cons refl refl refl] .
    show ?thesis
      unfolding step ih using Cons
      by (auto simp: removed_def emit_def setOnline_def isOnline_def fun_eq_iff)
  qed
qed

text \<open>
  C9. With cameras in the list and an alert set, \<open>disconnected()\<close> leaves the camera
  list empty; every former camera is offline and has had its \<open>cameraRemoved\<close>, emitted
  in list order with the camera already offline; the alert is the empty string (and its
  change signal closes the emissions); the devices-loaded flag is false.
\<close>

theorem disconnected_clears_state:
  assumes "m_cameras s \<noteq> []" and "m_statusAlertMessage s \<noteq> []"
  shows "m_cameras (disconnected s) = []
       \<and> (\<forall>c \<in> set (m_cameras s). cameraData (disconnected s) c = Some False)
       \<and> emitted (disconnected s) =
           emitted s @ map (\<lambda>c. CameraRemoved c False) (m_cameras s)
             @ [StatusAlertMessageChanged []]
       \<and> m_statusAlertMessage (disconnected s) = []
       \<and> \<not> devicesLoaded (disconnected s)"
  by (simp add: disconnected_def takeCameras_eq emit_def Let_def)

theorem disconnected_clears_state_witness:
  "m_cameras busyServer \<noteq> [] \<and> m_statusAlertMessage busyServer \<noteq> []
   \<and> m_cameras (disconnected busyServer) = []
   \<and> cameraData (disconnected busyServer) 1 = Some False
   \<and> cameraData (disconnected busyServer) 2 = Some False
   \<and> emitted (disconnected busyServer) =
        [CameraRemoved 1 False, CameraRemoved 2 False, StatusAlertMessageChanged []]
   \<and> m_statusAlertMessage (disconnected busyServer) = []
   \<and> \<not> devicesLoaded (disconnected busyServer)"
  using disconnected_clears_state [of busyServer]
  by (simp add: busyServer_def newServer_def)

section \<open>The refresh timer\<close>

text \<open>
  C5, as the code has it. When \<open>updateCameras()\<close> has run, the refresh timer is active
  exactly if the transport is online; \<open>disconnected()\<close> leaves the timer as it finds it.
  The timer of a server that lost its connection is stopped by the next
  \<open>updateCameras()\<close>, which the timer itself triggers.
\<close>

theorem timer_follows_updateCameras:
  "refreshTimerActive (updateCameras s) = apiOnline s
   \<and> apiOnline (updateCameras s) = apiOnline s
   \<and> refreshTimerActive (disconnected s) = refreshTimerActive s"
  by (simp add: updateCameras_def disconnected_def takeCameras_eq emit_def Let_def)

text \<open>
  C5, as stated, fails: after the disconnect handler of a server that was polling, the
  timer is still active although the transport is offline.
\<close>

theorem timer_runs_after_disconnect:
  "refreshTimerActive (disconnected droppedServer) \<and> \<not> apiOnline (disconnected droppedServer)"
  by (simp add: droppedServer_def newServer_def updateCameras_def disconnected_def
        takeCameras_eq emit_def Let_def)

section \<open>Certificate pinning\<close>

text \<open>
  C3. With no digest stored, \<open>isKnownCertificate(certA)\<close> answers true and stores the
  digest of \<open>certA\<close>; from then on \<open>isKnownCertificate(cert)\<close> answers true exactly for
  the certificates whose digest is the stored one, and changes nothing. A SHA-1 digest
  is twenty bytes, never the empty byte array that \<open>isKnownCertificate\<close> takes for
  "nothing stored": that is the first hypothesis.
\<close>

theorem first_certificate_is_pinned:
  assumes "digest certA \<noteq> []" and "readSetting s ''sslDigest'' = []"
  shows "fst (isKnownCertificate digest certA s)
       \<and> readSetting (snd (isKnownCertificate digest certA s)) ''sslDigest'' = digest certA
       \<and> (\<forall>cert. isKnownCertificate digest cert (snd (isKnownCertificate digest certA s)) =
                 (digest cert = digest certA, snd (isKnownCertificate digest certA s)))"
  using assms
  by (simp add: isKnownCertificate_def setKnownCertificate_def writeSetting_def readSetting_def
        emit_def Let_def)

theorem first_certificate_is_pinned_witness:
  "(\<lambda>der. ''sha1:'' @ der) ''certA'' \<noteq> [] \<and> readSetting (newServer 1) ''sslDigest'' = []
   \<and> fst (isKnownCertificate (\<lambda>der. ''sha1:'' @ der) ''certA'' (newServer 1))
   \<and> fst (isKnownCertificate (\<lambda>der. ''sha1:'' @ der) ''certA''
            (snd (isKnownCertificate (\<lambda>der. ''sha1:'' @ der) ''certA'' (newServer 1))))
   \<and> \<not> fst (isKnownCertificate (\<lambda>der. ''sha1:'' @ der) ''certB''
            (snd (isKnownCertificate (\<lambda>der. ''sha1:'' @ der) ''certA'' (newServer 1))))"
  using first_certificate_is_pinned [of "\<lambda>der. ''sha1:'' @ der" "''certA''" "newServer 1"]
  by (simp add: readSetting_def newServer_def)

section \<open>The device-list loop\<close>

lemma readNext_hasError [simp]: "hasError xml \<Longrightarrow> readNext xml = xml"
  by (simp add: readNext_def)

lemma hasError_raiseError [simp]: "hasError (raiseError msg xml)"
  by (simp add: hasError_def raiseError_def)

lemma devicesLoop_hasError: "hasError xml \<Longrightarrow> devicesLoop f xml ids s = (xml, ids, s)"
  by (subst devicesLoop.simps) simp

lemma devicesLoop_invariant:
  assumes "I xml ids s"
    and "\<And>xml ids s. I xml ids s \<Longrightarrow> I (readNext xml) ids s"
    and "\<And>xml ids s. I xml ids s \<Longrightarrow> \<not> hasError xml \<Longrightarrow>
                   (case deviceEntry f xml ids s of (xml1, ids1, s1) \<Rightarrow> I xml1 ids1 s1)"
  shows "case devicesLoop f xml ids s of (xml', ids', s') \<Rightarrow> I xml' ids' s'"
  using assms
proof (induction f xml ids s rule: devicesLoop.induct)
  case (1 f xml ids s)
  have n: "I (readNext xml) ids s" using "1.prems"(1) by (rule "1.prems"(2))
  obtain xml1 ids1 s1 where de: "deviceEntry f (readNext xml) ids s = (xml1, ids1, s1)"
    by (cases "deviceEntry f (readNext xml) ids s") auto
  have e: "\<not> hasError (readNext xml) \<Longrightarrow> I xml1 ids1 s1"
    using "1.prems"(3) [OF n] de by simp
  show ?case
    using n e de "1.IH" "1.prems"(2,3)
    by (subst devicesLoop.simps) (auto split: prod.splits)
qed

lemma grown_refl [simp]: "grown s s"
  by (simp add: grown_def)

lemma grownI:
  "s' = s\<lparr>m_cameras := m_cameras s @ new, emitted := emitted s @ map CameraAdded new,
           cameraData := d\<rparr> \<Longrightarrow> grown s s'"
  by (simp add: grown_def)

lemma grownD:
  "grown s s' \<Longrightarrow> \<exists>new. s' = s\<lparr>m_cameras := m_cameras s @ new,
           emitted := emitted s @ map CameraAdded new, cameraData := cameraData s'\<rparr>"
  unfolding grown_def by blast

lemma grown_trans: "grown s t \<Longrightarrow> grown t u \<Longrightarrow> grown s u"
proof -
  assume "grown s t" "grown t u"
  then obtain n1 n2 where
    t: "t = s\<lparr>m_cameras := m_cameras s @ n1, emitted := emitted s @ map CameraAdded n1,
           cameraData := cameraData t\<rparr>" and
    u: "u = t\<lparr>m_cameras := m_cameras t @ n2, emitted := emitted t @ map CameraAdded n2,
           cameraData := cameraData u\<rparr>"
    by (blast dest: grownD)
  have "u = s\<lparr>m_cameras := m_cameras s @ (n1 @ n2), emitted := emitted s @ map CameraAdded (n1 @ n2),
           cameraData := cameraData u\<rparr>"
    by (subst u, subst (1 2 3) t) simp
  then show ?thesis by (rule grownI)
qed

lemma grown_deviceEntry: "grown s (snd (snd (deviceEntry f xml ids s)))"
  by (auto simp: grown_def deviceEntry_def Let_def getCamera_def setOnline_def emit_def
      split: option.splits)

lemma grown_devicesLoop: "grown s (snd (snd (devicesLoop f xml ids s)))"
proof -
  have "case devicesLoop f xml ids s of (xml', ids', s') \<Rightarrow> grown s s'"
  proof (rule devicesLoop_invariant [where I = "\<lambda>xml ids s'. grown s s'"], goal_cases)
    case 1 show ?case by simp
  next
    case 2 then show ?case .
  next
    case (3 xml ids t)
    then show ?case
      using grown_deviceEntry [of t f xml ids] by (auto split: prod.splits intro: grown_trans)
  qed
  then show ?thesis by (simp split: prod.splits)
qed

lemma hasError_parseXML_not_ok:
  "hasError (snd (parseXML f c xml)) \<Longrightarrow> \<not> fst (parseXML f c xml)"
  by (auto simp: parseXML_def split: prod.splits)

lemma observed_devicesLoop:
  assumes "hasError xml \<or> ids \<subseteq> set (m_cameras s)"
  shows "case devicesLoop f xml ids s of
           (xml', ids', s') \<Rightarrow> hasError xml' \<or> ids' \<subseteq> set (m_cameras s')"
proof (rule devicesLoop_invariant
    [where I = "\<lambda>xml ids s. hasError xml \<or> ids \<subseteq> set (m_cameras s)"], goal_cases)
  case 1 show ?case by (rule assms)
next
  case (2 xml ids s) then show ?case by (cases "hasError xml") (auto simp: readNext_def raiseError_def hasError_def split: list.splits)
next
  case (3 xml ids s)
  then show ?case
    by (auto simp: deviceEntry_def Let_def getCamera_def setOnline_def emit_def
        split: option.splits dest: hasError_parseXML_not_ok)
qed

lemma online_devicesLoop:
  assumes "\<forall>c \<in> ids. cameraData s c = Some True"
  shows "case devicesLoop f xml ids s of
           (xml', ids', s') \<Rightarrow> \<forall>c \<in> ids'. cameraData s' c = Some True"
proof (rule devicesLoop_invariant
    [where I = "\<lambda>xml ids s. \<forall>c \<in> ids. cameraData s c = Some True"], goal_cases)
  case 1 show ?case by (rule assms)
next
  case 2 then show ?case .
next
  case (3 xml ids s)
  then show ?case
    by (auto simp: deviceEntry_def Let_def getCamera_def setOnline_def emit_def
        split: option.splits)
qed

lemma idSet_devicesLoop_mono: "ids \<subseteq> fst (snd (devicesLoop f xml ids s))"
proof -
  have "case devicesLoop f xml ids s of (xml', ids', s') \<Rightarrow> ids \<subseteq> ids'"
  proof (rule devicesLoop_invariant [where I = "\<lambda>xml ids' s. ids \<subseteq> ids'"], goal_cases)
    case 1 show ?case by simp
  next
    case 2 then show ?case .
  next
    case (3 xml ids' s)
    then show ?case
      by (auto simp: deviceEntry_def Let_def split: option.splits)
  qed
  then show ?thesis by (simp split: prod.splits)
qed

lemma deviceEntry_reader_indep:
  "fst (deviceEntry f xml ids s) = fst (deviceEntry f xml ids t)
   \<and> fst (snd (deviceEntry f xml ids s)) = fst (snd (deviceEntry f xml ids t))"
  by (auto simp: deviceEntry_def Let_def getCamera_def split: option.splits)

lemma devicesLoop_step:
  "devicesLoop f xml ids s =
     (if loopEnds (readNext xml) then (readNext xml, ids, s)
      else if atDevice (readNext xml) then
        devicesLoop f (fst (deviceEntry f (readNext xml) ids s))
          (fst (snd (deviceEntry f (readNext xml) ids s)))
          (snd (snd (deviceEntry f (readNext xml) ids s)))
      else devicesLoop f (readNext xml) ids s)"
  by (subst devicesLoop.simps) (auto simp: loopEnds_def atDevice_def split: prod.splits)

lemma devicesLoop_induct [case_names stop entry skip]:
  assumes "\<And>xml ids s. loopEnds (readNext xml) \<Longrightarrow> P xml ids s"
    and "\<And>xml ids s. \<not> loopEnds (readNext xml) \<Longrightarrow> atDevice (readNext xml) \<Longrightarrow>
           P (fst (deviceEntry f (readNext xml) ids s))
             (fst (snd (deviceEntry f (readNext xml) ids s)))
             (snd (snd (deviceEntry f (readNext xml) ids s))) \<Longrightarrow> P xml ids s"
    and "\<And>xml ids s. \<not> loopEnds (readNext xml) \<Longrightarrow> \<not> atDevice (readNext xml) \<Longrightarrow>
           P (readNext xml) ids s \<Longrightarrow> P xml ids s"
  shows "P xml ids s"
proof (induction "remaining xml" arbitrary: xml ids s rule: less_induct)
  case (less xml ids s)
  show ?case
  proof (cases "loopEnds (readNext xml)")
    case True
    then show ?thesis by (rule assms(1))
  next
    case False
    then have lt: "remaining (readNext xml) < remaining xml"
      by (simp add: loopEnds_def remaining_readNext_less)
    show ?thesis
    proof (cases "atDevice (readNext xml)")
      case True
      have "remaining (fst (deviceEntry f (readNext xml) ids s)) < remaining xml"
        using remaining_deviceEntry [of f "readNext xml" ids s] lt by simp
      then have "P (fst (deviceEntry f (readNext xml) ids s))
                   (fst (snd (deviceEntry f (readNext xml) ids s)))
                   (snd (snd (deviceEntry f (readNext xml) ids s)))"
        by (rule less)
      with False True show ?thesis by (rule assms(2))
    next
      case notDev: False
      have "P (readNext xml) ids s" using lt by (rule less)
      with False notDev show ?thesis by (rule assms(3))
    qed
  qed
qed

lemma devicesLoop_reader_indep:
  "fst (devicesLoop f xml ids s) = fst (devicesLoop f xml ids t)
   \<and> fst (snd (devicesLoop f xml ids s)) = fst (snd (devicesLoop f xml ids t))"
proof (induction xml ids s arbitrary: t rule: devicesLoop_induct [where f = f])
  case (stop xml ids s)
  have "devicesLoop f xml ids s = (readNext xml, ids, s)" "devicesLoop f xml ids t = (readNext xml, ids, t)"
    using stop by (subst devicesLoop_step, simp)+
  then show ?case by simp
next
  case (entry xml ids s)
  let ?e = "\<lambda>s. deviceEntry f (readNext xml) ids s"
  have eq: "fst (?e t) = fst (?e s)" "fst (snd (?e t)) = fst (snd (?e s))"
    using deviceEntry_reader_indep [of f "readNext xml" ids s t] by simp_all
  have 1: "devicesLoop f xml ids s = devicesLoop f (fst (?e s)) (fst (snd (?e s))) (snd (snd (?e s)))"
    using entry.hyps by (subst devicesLoop_step, simp)
  have 2: "devicesLoop f xml ids t = devicesLoop f (fst (?e s)) (fst (snd (?e s))) (snd (snd (?e t)))"
    using entry.hyps by (subst devicesLoop_step, simp add: eq)
  show ?case
    unfolding 1 2 by (rule entry.IH)
next
  case (skip xml ids s)
  have "devicesLoop f xml ids s = devicesLoop f (readNext xml) ids s"
    "devicesLoop f xml ids t = devicesLoop f (readNext xml) ids t"
    using skip.hyps by (subst devicesLoop_step, simp)+
  then show ?case using skip.IH by simp
qed

lemma devicesLoop_unchanged:
  "\<not> hasError (fst (devicesLoop f xml ids t)) \<Longrightarrow>
   fst (snd (devicesLoop f xml ids t)) \<subseteq> set (m_cameras t) \<Longrightarrow>
   (\<forall>c \<in> fst (snd (devicesLoop f xml ids t)). cameraData t c = Some True) \<Longrightarrow>
   snd (snd (devicesLoop f xml ids t)) = t"
proof (induction xml ids t rule: devicesLoop_induct [where f = f])
  case (stop xml ids s)
  then show ?case by (subst devicesLoop_step) simp
next
  case (entry xml ids s)
  let ?e = "deviceEntry f (readNext xml) ids s"
  have step: "devicesLoop f xml ids s = devicesLoop f (fst ?e) (fst (snd ?e)) (snd (snd ?e))"
    using entry.hyps by (subst devicesLoop_step, simp)
  have noerr: "\<not> hasError (fst ?e)"
    using entry.prems(1) unfolding step
    by (cases "hasError (fst ?e)") (simp_all add: devicesLoop_hasError)
  have sub: "fst (snd ?e) \<subseteq> fst (snd (devicesLoop f xml ids s))"
    unfolding step by (rule idSet_devicesLoop_mono)
  have same: "snd (snd ?e) = s"
  proof (cases "attributeValue (readNext xml) ''id''")
    case None
    then show ?thesis by (simp add: deviceEntry_def)
  next
    case (Some idv)
    show ?thesis
    proof (cases "toUInt (isSpace f) idv")
      case None
      with Some show ?thesis by (simp add: deviceEntry_def)
    next
      case (Some n)
      have "int_cast n \<in> fst (snd ?e)"
        using Some \<open>attributeValue (readNext xml) ''id'' = Some idv\<close>
        by (simp add: deviceEntry_def Let_def)
      with sub have mem: "int_cast n \<in> fst (snd (devicesLoop f xml ids s))" by blast
      have a: "int_cast n \<in> set (m_cameras s)" using mem entry.prems(2) by blast
      have b: "cameraData s (int_cast n) = Some True" using mem entry.prems(3) by blast
      have c: "(cameraData s)(int_cast n \<mapsto> True) = cameraData s"
        using b by (simp add: fun_upd_idem)
      show ?thesis
        using Some \<open>attributeValue (readNext xml) ''id'' = Some idv\<close> a b c
        by (simp add: deviceEntry_def Let_def getCamera_def setOnline_def)
    qed
  qed
  show ?case
    using entry.IH entry.prems noerr unfolding step same by simp
next
  case (skip xml ids s)
  have step: "devicesLoop f xml ids s = devicesLoop f (readNext xml) ids s"
    using skip.hyps by (subst devicesLoop_step, simp)
  show ?case using skip.IH skip.prems unfolding step by simp
qed

lemma removeAbsent_eq:
  "removeAbsent ids i s =
     s\<lparr>m_cameras := take i (m_cameras s) @ filter (\<lambda>c. c \<in> ids) (drop i (m_cameras s)),
       emitted := emitted s
         @ map (\<lambda>c. CameraRemoved c (isOnline s c)) (filter (\<lambda>c. c \<notin> ids) (drop i (m_cameras s)))\<rparr>"
proof (induction ids i s rule: removeAbsent.induct)
  case (1 idSet i s)
  show ?case
  proof (cases "i < length (m_cameras s)")
    case False
    then show ?thesis by (subst removeAbsent.simps) simp
  next
    case True
    note dr = Cons_nth_drop_Suc [OF True, symmetric]
    show ?thesis
    proof (cases "m_cameras s ! i \<in> idSet")
      case True
      have "removeAbsent idSet i s = removeAbsent idSet (i + 1) s"
        using True \<open>i < length (m_cameras s)\<close> by (subst removeAbsent.simps) (simp add: uniqueId_def)
      also have "\<dots> = s\<lparr>m_cameras := take (i + 1) (m_cameras s) @ filter (\<lambda>c. c \<in> idSet) (drop (i + 1) (m_cameras s)),
       emitted := emitted s
         @ map (\<lambda>c. CameraRemoved c (isOnline s c)) (filter (\<lambda>c. c \<notin> idSet) (drop (i + 1) (m_cameras s)))\<rparr>"
        using "1.IH"(2) True \<open>i < length (m_cameras s)\<close> by (simp add: uniqueId_def)
      finally show ?thesis
        using True by (simp add: dr take_Suc_conv_app_nth [OF \<open>i < length (m_cameras s)\<close>])
    next
      case False
      let ?c = "m_cameras s ! i"
      let ?s1 = "s\<lparr>m_cameras := removeAt i (m_cameras s)\<rparr>"
      let ?s3 = "removed ?c (emit (CameraRemoved ?c (isOnline ?s1 ?c)) ?s1)"
      have "removeAbsent idSet i s = removeAbsent idSet i ?s3"
        using False \<open>i < length (m_cameras s)\<close>
        by (subst removeAbsent.simps) (simp add: uniqueId_def Let_def)
      also have "\<dots> = ?s3\<lparr>m_cameras := take i (m_cameras ?s3) @ filter (\<lambda>c. c \<in> idSet) (drop i (m_cameras ?s3)),
       emitted := emitted ?s3
         @ map (\<lambda>c. CameraRemoved c (isOnline ?s3 c)) (filter (\<lambda>c. c \<notin> idSet) (drop i (m_cameras ?s3)))\<rparr>"
        using "1.IH"(1) [OF \<open>i < length (m_cameras s)\<close> _ refl refl refl] False
        by (simp add: uniqueId_def)
      finally show ?thesis
        using False \<open>i < length (m_cameras s)\<close>
        by (simp add: dr removed_def emit_def removeAt_def isOnline_def min_def)
    qed
  qed
qed

lemma findDevices_shape:
  "(\<exists>xml1. \<forall>t. findDevices f xml t =
        (fst (devicesLoop f xml1 {} t), fst (snd (devicesLoop f xml1 {} t)), True,
         snd (snd (devicesLoop f xml1 {} t))))
   \<or> (\<exists>xml1. \<forall>t. findDevices f xml t = (xml1, {}, False, t))"
proof (induction "remaining xml" arbitrary: xml rule: less_induct)
  case (less xml)
  obtain b xml1 where rn: "readNextStartElement xml = (b, xml1)"
    by (cases "readNextStartElement xml") auto
  show ?case
  proof (cases b)
    case False
    have "\<forall>t. findDevices f xml t = (xml1, {}, False, t)"
      using rn False by (subst findDevices.simps) simp
    then show ?thesis by blast
  next
    case True
    show ?thesis
    proof (cases "name xml1 = ''devices''")
      case isDev: True
      have "\<forall>t. findDevices f xml t =
        (fst (devicesLoop f xml1 {} t), fst (snd (devicesLoop f xml1 {} t)), True,
         snd (snd (devicesLoop f xml1 {} t)))"
        using rn True isDev by (subst findDevices.simps) (simp split: prod.splits)
      then show ?thesis by blast
    next
      case notDev: False
      have "\<forall>t. findDevices f xml t = findDevices f (skipCurrentElement xml1) t"
        using rn True notDev by (subst findDevices.simps) simp
      moreover have "remaining (skipCurrentElement xml1) < remaining xml"
        using remaining_readNextStartElement_True [of xml xml1] rn True
          remaining_skipLoop [of 1 xml1]
        by (simp add: skipCurrentElement_def)
      ultimately show ?thesis
        using less [of "skipCurrentElement xml1"] by simp
    qed
  qed
qed

text \<open>What a reply that reaches the reconciliation does, step by step.\<close>

lemma reconciled_reply:
  assumes "reconciles f (Some reply) s"
  shows "\<exists>xml1. (\<forall>t. findDevices f (QXmlStreamReader (replyData reply)) t =
              (fst (devicesLoop f xml1 {} t), fst (snd (devicesLoop f xml1 {} t)), True,
               snd (snd (devicesLoop f xml1 {} t))))
          \<and> \<not> hasError (fst (devicesLoop f xml1 {} s)) \<and> replyError reply = None"
proof -
  let ?x = "QXmlStreamReader (replyData reply)"
  from findDevices_shape [of f ?x] show ?thesis
  proof
    assume "\<exists>xml1. \<forall>t. findDevices f ?x t =
        (fst (devicesLoop f xml1 {} t), fst (snd (devicesLoop f xml1 {} t)), True,
         snd (snd (devicesLoop f xml1 {} t)))"
    then obtain xml1 where sh: "\<forall>t. findDevices f ?x t =
        (fst (devicesLoop f xml1 {} t), fst (snd (devicesLoop f xml1 {} t)), True,
         snd (snd (devicesLoop f xml1 {} t)))" by blast
    have "\<not> hasError (fst (devicesLoop f xml1 {} s))" "replyError reply = None"
      using assms by (simp_all add: reconciles_def sh)
    with sh show ?thesis by blast
  next
    assume "\<exists>xml1. \<forall>t. findDevices f ?x t = (xml1, {}, False, t)"
    then have False using assms by (auto simp: reconciles_def)
    then show ?thesis ..
  qed
qed

lemma observed_in_cameras:
  "\<not> hasError (fst (devicesLoop f xml {} s)) \<Longrightarrow>
   fst (snd (devicesLoop f xml {} s)) \<subseteq> set (m_cameras (snd (snd (devicesLoop f xml {} s))))"
  using observed_devicesLoop [of xml "{}" s f] by (auto split: prod.splits)

lemma observed_online:
  "\<forall>c \<in> fst (snd (devicesLoop f xml {} s)). cameraData (snd (snd (devicesLoop f xml {} s))) c = Some True"
  using online_devicesLoop [of "{}" s f xml] by (auto split: prod.splits)

lemma updateCamerasReply_reconciled:
  assumes "reconciles f (Some reply) s"
  shows "updateCamerasReply f (Some reply) s =
           finish (m_cameras s = [])
             (removeAbsent (observedIds f reply s) 0
                (snd (snd (snd (findDevices f (QXmlStreamReader (replyData reply)) s)))))"
  using assms
  by (auto simp: updateCamerasReply_def reconciles_def observedIds_def finish_def Let_def
      split: prod.splits)

text \<open>
  C1. When a device-list reply reaches the reconciliation (no transport error, a
  \<open>devices\<close> element, no parse error), the unique ids of the cameras in \<open>m_cameras\<close>
  after the handler are exactly the ids collected in \<open>idSet\<close> from that reply.
\<close>

theorem cameras_equal_observed:
  assumes "reconciles f (Some reply) s"
  shows "uniqueId ` set (m_cameras (updateCamerasReply f (Some reply) s)) = observedIds f reply s"
proof -
  from reconciled_reply [OF assms] obtain xml1 where
    sh: "\<forall>t. findDevices f (QXmlStreamReader (replyData reply)) t =
        (fst (devicesLoop f xml1 {} t), fst (snd (devicesLoop f xml1 {} t)), True,
         snd (snd (devicesLoop f xml1 {} t)))"
    and ne: "\<not> hasError (fst (devicesLoop f xml1 {} s))"
    and re: "replyError reply = None"
    by blast
  have "observedIds f reply s \<subseteq> set (m_cameras (snd (snd (devicesLoop f xml1 {} s))))"
    using observed_in_cameras [OF ne] by (simp add: observedIds_def sh)
  then show ?thesis
    unfolding updateCamerasReply_reconciled [OF assms]
    by (auto simp: finish_def emit_def removeAbsent_eq sh uniqueId_def image_def)
qed

lemma filter_all_in: "set xs \<subseteq> A \<Longrightarrow> filter (\<lambda>c. c \<in> A) xs = xs \<and> filter (\<lambda>c. c \<notin> A) xs = []"
  by (induction xs) auto

text \<open>
  C2. When a device-list reply has reached the reconciliation, handling an identical
  reply right after it leaves the server as it is: the camera list is the same and
  nothing is emitted, so no \<open>cameraAdded\<close> and no \<open>cameraRemoved\<close>.
\<close>

theorem identical_reply_changes_nothing:
  assumes "reconciles f (Some reply) s"
  shows "updateCamerasReply f (Some reply) (updateCamerasReply f (Some reply) s) =
           updateCamerasReply f (Some reply) s"
proof -
  let ?x = "QXmlStreamReader (replyData reply)"
  from reconciled_reply [OF assms] obtain xml1 where
    sh: "\<forall>t. findDevices f ?x t =
        (fst (devicesLoop f xml1 {} t), fst (snd (devicesLoop f xml1 {} t)), True,
         snd (snd (devicesLoop f xml1 {} t)))"
    and ne: "\<not> hasError (fst (devicesLoop f xml1 {} s))"
    and re: "replyError reply = None"
    by blast
  let ?ids = "fst (snd (devicesLoop f xml1 {} s))"
  let ?s1 = "snd (snd (devicesLoop f xml1 {} s))"
  let ?s' = "updateCamerasReply f (Some reply) s"
  have ids: "observedIds f reply s = ?ids" by (simp add: observedIds_def sh)
  have first: "?s' = finish (m_cameras s = []) (removeAbsent ?ids 0 ?s1)"
    unfolding updateCamerasReply_reconciled [OF assms] by (simp add: sh ids)
  have sub: "?ids \<subseteq> set (m_cameras ?s1)" using ne by (rule observed_in_cameras)
  have cams: "set (m_cameras ?s') = ?ids"
    using sub unfolding first by (auto simp: finish_def emit_def removeAbsent_eq)
  have data: "cameraData ?s' = cameraData ?s1"
    unfolding first by (simp add: finish_def emit_def removeAbsent_eq)
  have online: "\<forall>c \<in> ?ids. cameraData ?s' c = Some True"
    unfolding data by (rule observed_online)
  have loaded: "devicesLoaded ?s'"
    unfolding first by (auto simp: finish_def emit_def)
  have indep: "fst (devicesLoop f xml1 {} ?s') = fst (devicesLoop f xml1 {} s)"
    "fst (snd (devicesLoop f xml1 {} ?s')) = ?ids"
    using devicesLoop_reader_indep [of f xml1 "{}" ?s' s] by simp_all
  have same: "snd (snd (devicesLoop f xml1 {} ?s')) = ?s'"
    by (rule devicesLoop_unchanged) (simp_all add: indep ne cams online)
  have rec: "reconciles f (Some reply) ?s'"
    by (simp add: reconciles_def re sh indep ne)
  have ids': "observedIds f reply ?s' = ?ids" by (simp add: observedIds_def sh indep)
  have rem: "removeAbsent ?ids 0 ?s' = ?s'"
    using filter_all_in [of "m_cameras ?s'" ?ids] cams by (simp add: removeAbsent_eq)
  have "updateCamerasReply f (Some reply) ?s' = finish (m_cameras ?s' = []) ?s'"
    unfolding updateCamerasReply_reconciled [OF rec] by (simp add: sh ids' same rem)
  also have "\<dots> = ?s'"
    using loaded by (simp add: finish_def)
  finally show ?thesis .
qed

lemma grown_findDevices: "grown s (snd (snd (snd (findDevices f xml s))))"
  using findDevices_shape [of f xml] grown_devicesLoop [of s f _ "{}"] by auto

lemma grown_emitted:
  assumes "grown s s'"
  shows "emitted s' = emitted s @ map CameraAdded (drop (length (m_cameras s)) (m_cameras s'))"
proof -
  from assms obtain new where
    eq: "s' = s\<lparr>m_cameras := m_cameras s @ new, emitted := emitted s @ map CameraAdded new,
           cameraData := cameraData s'\<rparr>"
    by (blast dest: grownD)
  have "m_cameras s' = m_cameras s @ new" "emitted s' = emitted s @ map CameraAdded new"
    by (subst eq, simp)+
  then show ?thesis by simp
qed

lemma grown_devicesLoaded:
  assumes "grown s s'"
  shows "devicesLoaded s' = devicesLoaded s"
proof -
  from assms obtain new where
    eq: "s' = s\<lparr>m_cameras := m_cameras s @ new, emitted := emitted s @ map CameraAdded new,
           cameraData := cameraData s'\<rparr>"
    by (blast dest: grownD)
  show ?thesis by (subst eq) simp
qed

lemma updateCamerasReply_not_reconciled:
  assumes "\<not> reconciles f sender s"
  shows "grown s (updateCamerasReply f sender s)"
proof (cases sender)
  case None
  then show ?thesis by (simp add: updateCamerasReply_def)
next
  case (Some reply)
  let ?p = "findDevices f (QXmlStreamReader (replyData reply)) s"
  obtain xml ids has s1 where p: "?p = (xml, ids, has, s1)"
    by (cases ?p) auto
  have g: "grown s s1"
    using grown_findDevices [of s f "QXmlStreamReader (replyData reply)"] by (simp add: p)
  show ?thesis
    using assms g unfolding Some
    by (auto simp: updateCamerasReply_def reconciles_def p Let_def)
qed

lemma count_list_added [simp]: "count_list (map CameraAdded xs) DevicesReady = 0"
  by (induction xs) auto

lemma count_list_removed [simp]: "count_list (map (\<lambda>c. CameraRemoved c (g c)) xs) DevicesReady = 0"
  by (induction xs) auto

text \<open>
  C10. Among the signals of one run of \<open>updateCamerasReply()\<close>, \<open>devicesReady\<close> occurs
  once when the reply reaches the reconciliation and either the devices-loaded flag was
  false or the camera list was empty before the reply and is not empty after it; in
  every other run it does not occur. The flag is false after construction and after a
  disconnect, is set by every reply that reaches the reconciliation, and is left alone
  by every other device-list reply, by the stats replies and by \<open>updateCameras()\<close>.
\<close>

theorem devicesReady_rule:
  "count_list (emittedBy s (updateCamerasReply f sender s)) DevicesReady =
     (if reconciles f sender s \<and>
         (\<not> devicesLoaded s \<or> (m_cameras s = [] \<and> m_cameras (updateCamerasReply f sender s) \<noteq> []))
      then 1 else 0)
   \<and> devicesLoaded (updateCamerasReply f sender s) = (devicesLoaded s \<or> reconciles f sender s)
   \<and> \<not> devicesLoaded (newServer i)
   \<and> \<not> devicesLoaded (disconnected s)
   \<and> devicesLoaded (updateStatsReply f sender s) = devicesLoaded s
   \<and> devicesLoaded (updateCameras s) = devicesLoaded s"
proof -
  have flag: "\<not> devicesLoaded (newServer i)" "\<not> devicesLoaded (disconnected s)"
    "devicesLoaded (updateStatsReply f sender s) = devicesLoaded s"
    "devicesLoaded (updateCameras s) = devicesLoaded s"
    by (simp_all add: newServer_def disconnected_def updateStatsReply_def updateCameras_def
          emit_def Let_def split: option.splits)
  have "count_list (emittedBy s (updateCamerasReply f sender s)) DevicesReady =
     (if reconciles f sender s \<and>
         (\<not> devicesLoaded s \<or> (m_cameras s = [] \<and> m_cameras (updateCamerasReply f sender s) \<noteq> []))
      then 1 else 0)
   \<and> devicesLoaded (updateCamerasReply f sender s) = (devicesLoaded s \<or> reconciles f sender s)"
  proof (cases "reconciles f sender s")
    case False
    have g: "grown s (updateCamerasReply f sender s)"
      using False by (rule updateCamerasReply_not_reconciled)
    show ?thesis
      using False by (simp add: emittedBy_def grown_emitted [OF g] grown_devicesLoaded [OF g])
  next
    case True
    then obtain reply where sender: "sender = Some reply"
      by (cases sender) (auto simp: reconciles_def)
    let ?s1 = "snd (snd (snd (findDevices f (QXmlStreamReader (replyData reply)) s)))"
    let ?s2 = "removeAbsent (observedIds f reply s) 0 ?s1"
    have g: "grown s ?s1" by (rule grown_findDevices)
    have l2: "devicesLoaded ?s2 = devicesLoaded s"
      using grown_devicesLoaded [OF g] by (simp add: removeAbsent_eq)
    have e2: "emitted ?s2 = emitted s @ map CameraAdded (drop (length (m_cameras s)) (m_cameras ?s1))
        @ map (\<lambda>c. CameraRemoved c (isOnline ?s1 c))
            (filter (\<lambda>c. c \<notin> observedIds f reply s) (m_cameras ?s1))"
      by (simp add: removeAbsent_eq grown_emitted [OF g])
    have upd: "updateCamerasReply f sender s = finish (m_cameras s = []) ?s2"
      using True unfolding sender by (rule updateCamerasReply_reconciled)
    show ?thesis
      using True unfolding upd
      by (auto simp: finish_def emit_def emittedBy_def e2 l2)
  qed
  with flag show ?thesis by simp
qed

section \<open>Runs on concrete replies\<close>

lemmas eval_simps =
  updateCamerasReply_def findDevices.simps devicesLoop.simps deviceEntry_def removeAbsent.simps
  readNextStartElement.simps skipCurrentElement_def skipLoop.simps readTextLoop.simps readElementText_def
  entryLoop.simps parseXML_def readNext_def raiseError_def hasError_def isStartElement_def isEndElement_def
  name_def attributeValue_def QXmlStreamReader_def toUInt_def trimmed_def asciiSpace_def digitValue_def
  int_cast_def getCamera_def setOnline_def isOnline_def removed_def emit_def uniqueId_def removeAt_def
  deviceListReply_def devicesDocument_def entryTokens_def fieldTokens_def device_def anyFields_def
  newServer_def Let_def statsLoop.simps readStats.simps statusMessage_def updateStatsReply_def
  statsReply_def statsDocument_def reconciles_def observedIds_def emittedBy_def

theorem cameras_equal_observed_witness:
  "reconciles anyFields (Some (deviceListReply [device ''1'', device ''2''])) (newServer 1)
   \<and> observedIds anyFields (deviceListReply [device ''1'', device ''2'']) (newServer 1) = {1, 2}
   \<and> uniqueId ` set (m_cameras (updateCamerasReply anyFields
         (Some (deviceListReply [device ''1'', device ''2''])) (newServer 1))) = {1, 2}"
proof -
  have r: "reconciles anyFields (Some (deviceListReply [device ''1'', device ''2''])) (newServer 1)"
    by (simp add: eval_simps)
  have o: "observedIds anyFields (deviceListReply [device ''1'', device ''2'']) (newServer 1) = {1, 2}"
    by (simp add: eval_simps insert_commute)
  show ?thesis
    using r o cameras_equal_observed [OF r] by simp
qed

theorem identical_reply_changes_nothing_witness:
  "reconciles anyFields (Some (deviceListReply [device ''1'', device ''2''])) (newServer 1)
   \<and> emitted (updateCamerasReply anyFields (Some (deviceListReply [device ''1'', device ''2'']))
        (updateCamerasReply anyFields (Some (deviceListReply [device ''1'', device ''2'']))
           (newServer 1))) = [CameraAdded 1, CameraAdded 2, DevicesReady]"
proof -
  have r: "reconciles anyFields (Some (deviceListReply [device ''1'', device ''2''])) (newServer 1)"
    by (simp add: eval_simps)
  have e: "emitted (updateCamerasReply anyFields (Some (deviceListReply [device ''1'', device ''2'']))
           (newServer 1)) = [CameraAdded 1, CameraAdded 2, DevicesReady]"
    by (simp add: eval_simps)
  show ?thesis
    using r e identical_reply_changes_nothing [OF r] by simp
qed

theorem devicesReady_rule_witness:
  "reconciles anyFields (Some (deviceListReply [device ''1'', device ''2''])) (newServer 1)
   \<and> \<not> devicesLoaded (newServer 1)
   \<and> count_list (emittedBy (newServer 1)
        (updateCamerasReply anyFields (Some (deviceListReply [device ''1'', device ''2'']))
           (newServer 1))) DevicesReady = 1"
proof -
  have r: "reconciles anyFields (Some (deviceListReply [device ''1'', device ''2''])) (newServer 1)"
    by (simp add: eval_simps)
  have l: "\<not> devicesLoaded (newServer 1)"
    by (simp add: newServer_def)
  show ?thesis
    using r l devicesReady_rule [where s = "newServer 1" and f = anyFields
        and sender = "Some (deviceListReply [device ''1'', device ''2''])"]
    by simp
qed

section \<open>The status message of a stats document\<close>

lemmas reader_simps =
  readNext_def raiseError_def hasError_def isStartElement_def isEndElement_def name_def
  attributeValue_def



lemma readNextStartElement_start:
  "readNextStartElement \<lparr>pending = StartElement n a # ts, current = c, errorString = None\<rparr> =
     (True, \<lparr>pending = ts, current = Some (StartElement n a), errorString = None\<rparr>)"
  by (subst readNextStartElement.simps) (simp add: reader_simps)

lemma readNextStartElement_StartDocument:
  "readNextStartElement \<lparr>pending = StartDocument # ts, current = c, errorString = None\<rparr> =
     readNextStartElement \<lparr>pending = ts, current = Some StartDocument, errorString = None\<rparr>"
  by (subst readNextStartElement.simps) (simp add: reader_simps)









lemmas eval_simps2 =
  readNextStartElement.simps readTextLoop.simps readElementText_def
  readNext_def raiseError_def hasError_def isStartElement_def isEndElement_def
  name_def QXmlStreamReader_def trimmed_def asciiSpace_def anyFields_def fieldTokens_def
  emit_def Let_def statsLoop.simps readStats.simps statusMessage_def updateStatsReply_def
  statsReply_def statsDocument_def emittedBy_def



section \<open>Notification of the alert\<close>

text \<open>
  C7, as the code has it. \<open>updateStatsReply()\<close> emits \<open>statusAlertMessageChanged\<close>
  exactly when the message it derives is not the stored alert, and stores the message;
  so of two stats replies in a row that yield the same message the second emits
  nothing and changes nothing, and the two together emit at most one notification.
\<close>

theorem alert_changes_are_notified:
  "emittedBy s (updateStatsReply q (Some reply) s) =
     (if statusMessage q reply \<noteq> m_statusAlertMessage s
      then [StatusAlertMessageChanged (statusMessage q reply)] else [])
   \<and> m_statusAlertMessage (updateStatsReply q (Some reply) s) = statusMessage q reply
   \<and> (statusMessage q reply2 = statusMessage q reply \<longrightarrow>
        updateStatsReply q (Some reply2) (updateStatsReply q (Some reply) s) =
          updateStatsReply q (Some reply) s)"
  by (simp add: updateStatsReply_def emittedBy_def emit_def Let_def)

theorem alert_changes_are_notified_witness:
  "statusMessage anyFields (statsReply [(''message'', ''Disk full''), (''bc-server-running'', ''up'')]) =
     statusMessage anyFields (statsReply [(''message'', ''Disk full'')])
   \<and> emittedBy (newServer 1)
        (updateStatsReply anyFields (Some (statsReply [(''message'', ''Disk full''), (''bc-server-running'', ''up'')]))
           (updateStatsReply anyFields (Some (statsReply [(''message'', ''Disk full'')])) (newServer 1))) =
       [StatusAlertMessageChanged ''Disk full'']"
proof -
  have m: "statusMessage anyFields (statsReply [(''message'', ''Disk full'')]) = ''Disk full''"
    by (simp add: eval_simps2)
  have m2: "statusMessage anyFields (statsReply [(''message'', ''Disk full''), (''bc-server-running'', ''up'')]) =
      ''Disk full''"
    by (simp add: eval_simps2)
  show ?thesis
    using alert_changes_are_notified [where s = "newServer 1" and q = anyFields
        and reply = "statsReply [(''message'', ''Disk full'')]"
        and ?reply2.0 = "statsReply [(''message'', ''Disk full''), (''bc-server-running'', ''up'')]"]
    by (simp add: m m2 newServer_def)
qed

text \<open>
  C7, as stated, fails twice. The disconnect handler of a server whose alert is already
  empty emits \<open>statusAlertMessageChanged\<close>; and two replies in a row that yield the alert
  the server already has (here the empty one of a healthy server) emit no notification,
  not one.
\<close>

theorem unchanged_alert_notifications:
  "m_statusAlertMessage (newServer 1) = []
   \<and> emittedBy (newServer 1) (disconnected (newServer 1)) = [StatusAlertMessageChanged []]
   \<and> statusMessage anyFields (statsReply [(''message'', [])]) = []
   \<and> emittedBy (newServer 1)
        (updateStatsReply anyFields (Some (statsReply [(''message'', [])]))
           (updateStatsReply anyFields (Some (statsReply [(''message'', [])])) (newServer 1))) = []"
proof -
  have m: "statusMessage anyFields (statsReply [(''message'', [])]) = []"
    by (simp add: eval_simps2)
  show ?thesis
    by (simp add: m updateStatsReply_def disconnected_def takeCameras_eq emittedBy_def emit_def
          newServer_def Let_def)
qed

section \<open>Device entries that do not parse\<close>

lemma entryLoop_fields:
  "entryLoop 0 seen \<lparr>pending = concat (map fieldTokens fs) @ EndElement d # rest,
                      current = c, errorString = None\<rparr> =
     (seen @ concat (map fieldTokens fs),
      \<lparr>pending = rest, current = Some (EndElement d), errorString = None\<rparr>)"
proof (induction fs arbitrary: seen c)
  case Nil
  show ?case by (subst entryLoop.simps) (simp add: reader_simps)
next
  case (Cons nv fs)
  have "entryLoop 0 seen \<lparr>pending = concat (map fieldTokens (nv # fs)) @ EndElement d # rest,
                      current = c, errorString = None\<rparr> =
        entryLoop 0 (seen @ fieldTokens nv)
          \<lparr>pending = concat (map fieldTokens fs) @ EndElement d # rest,
           current = Some (EndElement (fst nv)), errorString = None\<rparr>"
    apply (subst entryLoop.simps)
    apply (simp add: fieldTokens_def reader_simps)
    apply (subst entryLoop.simps)
    apply (simp add: reader_simps)
    apply (subst entryLoop.simps)
    apply (simp add: reader_simps)
    done
  then show ?case by (simp add: Cons.IH)
qed

lemma parseXML_atEntry:
  "parseXML f c (atEntry e rest) =
     (f c (concat (map fieldTokens (snd e))),
      \<lparr>pending = rest, current = Some (EndElement ''device''), errorString = None\<rparr>)"
  by (simp add: parseXML_def atEntry_def entryLoop_fields hasError_def)

lemma attributeValue_atEntry [simp]: "attributeValue (atEntry e rest) k = map_of (fst e) k"
  by (simp add: attributeValue_def atEntry_def)

lemma hasError_entry_end [simp]:
  "\<not> hasError \<lparr>pending = rest, current = c, errorString = None\<rparr>"
  by (simp add: hasError_def)

lemma deviceEntry_parses:
  assumes "entryParses f e"
  shows "deviceEntry f (atEntry e rest) ids s =
           (\<lparr>pending = rest, current = Some (EndElement ''device''), errorString = None\<rparr>,
            insert (the (entryId f e)) ids, observe f e s)"
  using assms
  by (auto simp: deviceEntry_def observe_def entryParses_def entryId_def parseXML_atEntry Let_def
        getCamera_def split: option.splits)


lemma devicesLoop_entry:
  "devicesLoop f \<lparr>pending = entryTokens e @ rest, current = c, errorString = None\<rparr> ids s =
     devicesLoop f (fst (deviceEntry f (atEntry e rest) ids s))
       (fst (snd (deviceEntry f (atEntry e rest) ids s)))
       (snd (snd (deviceEntry f (atEntry e rest) ids s)))"
  by (subst devicesLoop_step)
     (simp add: entryTokens_def atEntry_def loopEnds_def atDevice_def reader_simps)

lemma devicesLoop_parsing_entries:
  assumes "\<forall>e \<in> set pre. entryParses f e"
  shows "\<exists>c'. devicesLoop f \<lparr>pending = concat (map entryTokens pre) @ rest, current = c,
                   errorString = None\<rparr> ids s =
           devicesLoop f \<lparr>pending = rest, current = c', errorString = None\<rparr>
             (ids \<union> (\<lambda>e. the (entryId f e)) ` set pre) (foldl (\<lambda>s e. observe f e s) s pre)"
  using assms
proof (induction pre arbitrary: c ids s)
  case Nil
  show ?case by auto
next
  case (Cons e pre)
  from Cons.prems have e: "entryParses f e" and pre: "\<forall>e \<in> set pre. entryParses f e"
    by auto
  have step: "devicesLoop f \<lparr>pending = concat (map entryTokens (e # pre)) @ rest, current = c,
                   errorString = None\<rparr> ids s =
        devicesLoop f \<lparr>pending = concat (map entryTokens pre) @ rest,
                         current = Some (EndElement ''device''), errorString = None\<rparr>
          (insert (the (entryId f e)) ids) (observe f e s)"
    using devicesLoop_entry [of f e "concat (map entryTokens pre) @ rest" c ids s]
    by (simp add: deviceEntry_parses [OF e])
  from Cons.IH [OF pre, of "Some (EndElement ''device'')" "insert (the (entryId f e)) ids" "observe f e s"]
  show ?case unfolding step by auto
qed

lemma findDevices_devicesDocument:
  "findDevices f (QXmlStreamReader (devicesDocument es)) s =
     (case devicesLoop f
             \<lparr>pending = concat (map entryTokens es) @ [EndElement ''devices'', EndDocument],
              current = Some (StartElement ''devices'' []), errorString = None\<rparr> {} s of
        (xml, idSet, s1) \<Rightarrow> (xml, idSet, True, s1))"
  by (subst findDevices.simps)
     (simp add: QXmlStreamReader_def devicesDocument_def readNextStartElement_StartDocument
        readNextStartElement_start name_def)

text \<open>A document whose entries all parse reaches the reconciliation, with the ids of its entries.\<close>

lemma parsing_reply_reconciles:
  assumes "\<forall>e \<in> set es. entryParses f e"
  shows "reconciles f (Some (deviceListReply es)) s
       \<and> observedIds f (deviceListReply es) s = (\<lambda>e. the (entryId f e)) ` set es"
proof -
  let ?rest = "[EndElement ''devices'', EndDocument]"
  from devicesLoop_parsing_entries [OF assms, of ?rest "Some (StartElement ''devices'' [])" "{}" s]
  obtain c' where pre: "devicesLoop f
       \<lparr>pending = concat (map entryTokens es) @ ?rest,
        current = Some (StartElement ''devices'' []), errorString = None\<rparr> {} s =
     devicesLoop f \<lparr>pending = ?rest, current = c', errorString = None\<rparr>
       ((\<lambda>e. the (entryId f e)) ` set es) (foldl (\<lambda>s e. observe f e s) s es)"
    by auto
  have fin: "devicesLoop f \<lparr>pending = ?rest, current = c', errorString = None\<rparr> ids t =
      (\<lparr>pending = [EndDocument], current = Some (EndElement ''devices''), errorString = None\<rparr>,
       ids, t)" for ids t
    by (subst devicesLoop_step) (simp add: loopEnds_def reader_simps)
  show ?thesis
    by (simp add: reconciles_def observedIds_def deviceListReply_def findDevices_devicesDocument
          pre fin)
qed











section \<open>Removal of cameras that are no longer listed\<close>

text \<open>The parse touches the data of observed cameras only, and appends observed cameras only.\<close>

lemma untouched_devicesLoop:
  "case devicesLoop f xml ids s of
     (xml', ids', s') \<Rightarrow>
       (\<forall>c. c \<notin> ids' \<longrightarrow> cameraData s' c = cameraData s c)
       \<and> (\<exists>new. m_cameras s' = m_cameras s @ new \<and> set new \<subseteq> ids')"
proof (rule devicesLoop_invariant
    [where I = "\<lambda>xml ids' s'. (\<forall>c. c \<notin> ids' \<longrightarrow> cameraData s' c = cameraData s c)
       \<and> (\<exists>new. m_cameras s' = m_cameras s @ new \<and> set new \<subseteq> ids')"], goal_cases)
  case 1
  show ?case by simp
next
  case 2
  then show ?case .
next
  case (3 xml ids' s')
  then obtain new where new: "m_cameras s' = m_cameras s @ new" "set new \<subseteq> ids'"
    and data: "\<forall>c. c \<notin> ids' \<longrightarrow> cameraData s' c = cameraData s c"
    by blast
  show ?case
  proof (cases "attributeValue xml ''id''")
    case None
    then show ?thesis using new data by (simp add: deviceEntry_def)
  next
    case (Some idv)
    show ?thesis
    proof (cases "toUInt (isSpace f) idv")
      case None
      with Some show ?thesis using new data by (simp add: deviceEntry_def)
    next
      case (Some n)
      have "\<exists>new'. m_cameras s' @ [int_cast n] = m_cameras s @ new' \<and> set new' \<subseteq> insert (int_cast n) ids'"
        using new by (intro exI [of _ "new @ [int_cast n]"]) auto
      moreover have "\<exists>new'. m_cameras s' = m_cameras s @ new' \<and> set new' \<subseteq> insert (int_cast n) ids'"
        using new by (intro exI [of _ new]) auto
      ultimately show ?thesis
        using Some \<open>attributeValue xml ''id'' = Some idv\<close> data
        by (auto simp: deviceEntry_def Let_def getCamera_def setOnline_def emit_def
            split: option.splits)
    qed
  qed
qed

lemma filter_absent_append:
  "set new \<subseteq> ids \<Longrightarrow> filter (\<lambda>c. c \<notin> ids) (xs @ new) = filter (\<lambda>c. c \<notin> ids) xs"
  by (induction new) auto

lemma filter_isRemoval_added [simp]: "filter isRemoval (map CameraAdded xs) = []"
  by (induction xs) auto

lemma filter_isRemoval_removed [simp]:
  "filter isRemoval (map (\<lambda>c. CameraRemoved c (g c)) xs) = map (\<lambda>c. CameraRemoved c (g c)) xs"
  by (induction xs) auto

text \<open>
  C8, what the code does. Among the signals of a reply that reaches the reconciliation
  there is one \<open>cameraRemoved\<close> for each entry of the camera list whose id was not
  observed, in list order, and no other; each carries the online flag the camera had
  before the reply. The removal loop sets no camera offline, unlike \<open>disconnected()\<close>.
\<close>

theorem removal_notifications:
  assumes "reconciles f (Some reply) s"
  shows "filter isRemoval (emittedBy s (updateCamerasReply f (Some reply) s)) =
           map (\<lambda>c. CameraRemoved c (isOnline s c))
             (filter (\<lambda>c. c \<notin> observedIds f reply s) (m_cameras s))"
proof -
  let ?x = "QXmlStreamReader (replyData reply)"
  from reconciled_reply [OF assms] obtain xml1 where
    sh: "\<forall>t. findDevices f ?x t =
        (fst (devicesLoop f xml1 {} t), fst (snd (devicesLoop f xml1 {} t)), True,
         snd (snd (devicesLoop f xml1 {} t)))"
    by blast
  let ?ids = "fst (snd (devicesLoop f xml1 {} s))"
  let ?s1 = "snd (snd (devicesLoop f xml1 {} s))"
  have ids: "observedIds f reply s = ?ids" by (simp add: observedIds_def sh)
  have s1: "snd (snd (snd (findDevices f ?x s))) = ?s1" by (simp add: sh)
  from untouched_devicesLoop [where f = f and xml = xml1 and ids = "{}" and s = s] obtain new where
    data: "\<forall>c. c \<notin> ?ids \<longrightarrow> cameraData ?s1 c = cameraData s c"
    and new: "m_cameras ?s1 = m_cameras s @ new" "set new \<subseteq> ?ids"
    by (auto split: prod.splits)
  have g: "grown s ?s1" by (rule grown_devicesLoop)
  have absent: "filter (\<lambda>c. c \<notin> ?ids) (m_cameras ?s1) = filter (\<lambda>c. c \<notin> ?ids) (m_cameras s)"
    unfolding new(1) using new(2) by (rule filter_absent_append)
  have flags: "map (\<lambda>c. CameraRemoved c (isOnline ?s1 c)) (filter (\<lambda>c. c \<notin> ?ids) (m_cameras s)) =
               map (\<lambda>c. CameraRemoved c (isOnline s c)) (filter (\<lambda>c. c \<notin> ?ids) (m_cameras s))"
    using data by (simp add: isOnline_def)
  have e2: "emitted (removeAbsent ?ids 0 ?s1) =
      emitted s @ map CameraAdded (drop (length (m_cameras s)) (m_cameras ?s1))
      @ map (\<lambda>c. CameraRemoved c (isOnline s c)) (filter (\<lambda>c. c \<notin> ?ids) (m_cameras s))"
    by (simp add: removeAbsent_eq grown_emitted [OF g] absent flags)
  show ?thesis
    unfolding updateCamerasReply_reconciled [OF assms] ids s1
    by (simp add: finish_def emit_def emittedBy_def e2)
qed

text \<open>
  The scenario of C8: a reply listing the ids 1 and 2, then a reply listing only 2.
  There is exactly one \<open>cameraRemoved\<close>, for camera 1, and no second \<open>cameraAdded\<close>
  for camera 2; but camera 1 is online when its \<open>cameraRemoved\<close> is emitted, and stays
  online. \<open>disconnected()\<close>, on the same cameras, sets each camera offline before the
  signal.
\<close>

theorem removal_notifications_witness:
  "reconciles anyFields (Some (deviceListReply [device ''2''])) afterFirstReply
   \<and> m_cameras afterFirstReply = [1, 2]
   \<and> isOnline afterFirstReply 1
   \<and> filter isRemoval (emittedBy afterFirstReply
         (updateCamerasReply anyFields (Some (deviceListReply [device ''2''])) afterFirstReply)) =
       [CameraRemoved 1 True]"
proof -
  have r: "reconciles anyFields (Some (deviceListReply [device ''2''])) afterFirstReply"
    by (simp add: afterFirstReply_def eval_simps)
  have o: "observedIds anyFields (deviceListReply [device ''2'']) afterFirstReply = {2}"
    by (simp add: afterFirstReply_def eval_simps)
  have m: "m_cameras afterFirstReply = [1, 2]"
    by (simp add: afterFirstReply_def eval_simps)
  have on: "isOnline afterFirstReply 1"
    by (simp add: afterFirstReply_def eval_simps)
  show ?thesis
    using r m on removal_notifications [OF r] by (simp add: o)
qed

lemma removal_scenario:
  "emitted (updateCamerasReply anyFields (Some (deviceListReply [device ''2'']))
      (updateCamerasReply anyFields (Some (deviceListReply [device ''1'', device ''2'']))
         (newServer 1))) =
     [CameraAdded 1, CameraAdded 2, DevicesReady, CameraRemoved 1 True]
   \<and> m_cameras (updateCamerasReply anyFields (Some (deviceListReply [device ''2'']))
      (updateCamerasReply anyFields (Some (deviceListReply [device ''1'', device ''2'']))
         (newServer 1))) = [2]
   \<and> cameraData (updateCamerasReply anyFields (Some (deviceListReply [device ''2'']))
      (updateCamerasReply anyFields (Some (deviceListReply [device ''1'', device ''2'']))
         (newServer 1))) 1 = Some True
   \<and> emitted (disconnected
      (updateCamerasReply anyFields (Some (deviceListReply [device ''1'', device ''2'']))
         (newServer 1))) =
     [CameraAdded 1, CameraAdded 2, DevicesReady, CameraRemoved 1 False, CameraRemoved 2 False,
      StatusAlertMessageChanged []]"
  by (simp add: eval_simps disconnected_def takeCameras_eq)

end
